theory Spec2Isabelle
  imports Main "HOL-Library.Word"
begin

unbundle bit_operations_syntax

section \<open>The ADC reader of ATMega328PAnalogReader.h\<close>

text \<open>
  The class \<^verbatim>\<open>ATMega328PAnalogReader\<close> saves the ADC control register
  \<^verbatim>\<open>ADCSRA\<close> of an ATmega328P, replaces its three prescaler bits, and reads
  the converter through Arduino's \<^verbatim>\<open>analogRead\<close>, summing and shifting the
  samples.

  The target is an 8-bit AVR: \<^verbatim>\<open>uint8_t\<close>, \<^verbatim>\<open>uint16_t\<close> and
  \<^verbatim>\<open>uint32_t\<close> are words of 8, 16 and 32 bits, and \<^verbatim>\<open>int\<close>, the
  return type of \<^verbatim>\<open>analogRead\<close>, is a 16-bit two's complement value (kept
  here as the 16-bit pattern and read with \<open>sint\<close> or widened with \<open>scast\<close>).
\<close>

type_synonym u8 = "8 word"
type_synonym u16 = "16 word"
type_synonym u32 = "32 word"

subsection \<open>State\<close>

text \<open>
  The hardware: the memory-mapped register \<^verbatim>\<open>ADCSRA\<close>, and whatever else
  the board holds (the record's extension: the converter, its inputs, the clock).
  The register is modelled as a plain byte: it changes only when the program, or
  \<^verbatim>\<open>analogRead\<close>, writes it.
\<close>

record hw =
  ADCSRA :: u8

text \<open>
  The object: the private members \<^verbatim>\<open>_prescalerBits\<close>, \<^verbatim>\<open>_backupADCSRA\<close>
  and \<^verbatim>\<open>_initialized\<close> (an identifier cannot start with an underscore here,
  so they carry the prefix \<open>m_\<close>).
\<close>

record reader =
  m_prescalerBits :: u8
  m_backupADCSRA :: u8
  m_initialized :: bool

text \<open>The defaulted constructor with the default member initialisers.\<close>

definition ATMega328PAnalogReader :: reader where
  "ATMega328PAnalogReader =
     \<lparr>m_prescalerBits = 0, m_backupADCSRA = 0, m_initialized = False\<rparr>"

text \<open>
  A member function takes the object and the hardware and returns its result with
  both, updated. (\<open>begin\<close> and \<open>end\<close> are keywords of Isabelle, hence the
  suffix.)
\<close>

definition initialized :: "reader \<Rightarrow> bool" where
  "initialized r = m_initialized r"

text \<open>
  \<^verbatim>\<open>begin\<close>, statement by statement (its default argument is 7). The
  operands of \<^verbatim>\<open>&\<close> and \<^verbatim>\<open>|\<close> are promoted to \<^verbatim>\<open>int\<close> and the
  result is converted back to \<^verbatim>\<open>uint8_t\<close>; all operands are below 256, so this
  is the operation on bytes. The mask \<^verbatim>\<open>0b11111000\<close> is \<open>0xF8\<close>.
\<close>

definition begin_reader ::
  "u8 \<Rightarrow> reader \<times> 'a hw_scheme \<Rightarrow> bool \<times> reader \<times> 'a hw_scheme" where
  "begin_reader prescalerBits s =
     (case s of (r, h) \<Rightarrow>
        let r1 = r\<lparr>m_prescalerBits := prescalerBits AND 0x07\<rparr>;
            r2 = r1\<lparr>m_backupADCSRA := ADCSRA h\<rparr>;
            h1 = h\<lparr>ADCSRA := (ADCSRA h AND 0xF8) OR m_prescalerBits r2\<rparr>;
            r3 = r2\<lparr>m_initialized := True\<rparr>
        in (initialized r3, r3, h1))"

definition end_reader :: "reader \<times> 'a hw_scheme \<Rightarrow> reader \<times> 'a hw_scheme" where
  "end_reader s =
     (case s of (r, h) \<Rightarrow>
        let h1 = (if initialized r then h\<lparr>ADCSRA := m_backupADCSRA r\<rparr> else h)
        in (r\<lparr>m_initialized := False\<rparr>, h1))"

text \<open>The destructor calls \<^verbatim>\<open>end\<close>.\<close>

definition destroy_reader :: "reader \<times> 'a hw_scheme \<Rightarrow> 'a hw_scheme" where
  "destroy_reader s = snd (end_reader s)"

subsection \<open>Sampling\<close>

text \<open>
  \<^verbatim>\<open>analogRead\<close> belongs to the Arduino core, not to this class: it is a
  parameter of the model, a function from the pin and the hardware state to the
  sample and the hardware state after the conversion. The sample is the 16-bit
  pattern of the \<^verbatim>\<open>int\<close> it returns.
\<close>

type_synonym 'h analog_read = "u8 \<Rightarrow> 'h \<Rightarrow> u16 \<times> 'h"

text \<open>\<^verbatim>\<open>read\<close> returns one sample, converted to \<^verbatim>\<open>uint16_t\<close>.\<close>

definition read :: "'h analog_read \<Rightarrow> u8 \<Rightarrow> reader \<times> 'h \<Rightarrow> u16 \<times> reader \<times> 'h" where
  "read analogRead pin s =
     (case s of (r, h) \<Rightarrow> (case analogRead pin h of (x, h1) \<Rightarrow> (x, r, h1)))"

text \<open>
  The loop shared by the three averaging reads,
  \<^verbatim>\<open>for (uint16_t i = 0; i < samples; ++i) { sum += analogRead(pin); }\<close>,
  entered with the counter \<open>i\<close> and the accumulator \<open>acc\<close> (the source's
  \<^verbatim>\<open>sum\<close>). The counter is a 16-bit word and the accumulator a 32-bit word
  whose addition wraps; the \<^verbatim>\<open>int\<close> sample is converted to
  \<^verbatim>\<open>uint32_t\<close> by sign extension.
\<close>

function sum_loop ::
  "'h analog_read \<Rightarrow> u8 \<Rightarrow> u16 \<Rightarrow> u16 \<Rightarrow> u32 \<Rightarrow> 'h \<Rightarrow> u32 \<times> 'h" where
  "sum_loop analogRead pin samples i acc h =
     (if i < samples
      then (case analogRead pin h of (x, h1) \<Rightarrow>
              sum_loop analogRead pin samples (i + 1) (acc + scast x) h1)
      else (acc, h))"
  by pat_completeness auto
termination
proof (relation "measure (\<lambda>(analogRead, pin, samples, i, acc, h). unat samples - unat i)")
  show "wf (measure (\<lambda>(analogRead :: 'h analog_read, pin :: u8, samples :: u16,
              i :: u16, acc :: u32, h :: 'h). unat samples - unat i))"
    by simp
next
  fix analogRead :: "'h analog_read" and pin :: u8 and samples i :: u16
    and acc :: u32 and h h1 :: 'h and x :: u16
  assume "i < samples"
  then have "unat i < unat samples" by (simp add: word_less_nat_alt)
  moreover have "unat samples < 2 ^ 16"
    using unsigned_less [of samples, where ?'a = nat] by simp
  ultimately have "unat i + unat (1 :: u16) < 2 ^ LENGTH(16)" by simp
  then have "unat (i + 1) = unat i + unat (1 :: u16)" by (simp only: unat_add_lem)
  with \<open>unat i < unat samples\<close> show
    "((analogRead, pin, samples, i + 1, acc + scast x, h1), analogRead, pin, samples, i, acc, h)
       \<in> measure (\<lambda>(analogRead, pin, samples, i, acc, h). unat samples - unat i)"
    by simp
qed

declare sum_loop.simps [simp del]

text \<open>
  The template arguments are ordinary arguments here. The constant
  \<^verbatim>\<open>1 << k\<close> stored in the \<^verbatim>\<open>uint16_t samples\<close> is \<open>2 ^ k\<close> reduced
  modulo \<open>2 ^ 16\<close>: that is its value wherever the language defines the shift (up
  to \<open>k = 15\<close> with the 16-bit \<^verbatim>\<open>int\<close> of this target, up to \<open>k = 31\<close>
  with a 32-bit \<^verbatim>\<open>int\<close>), so the count is 0 from \<open>k = 16\<close> on. Where the
  shift count reaches the width of \<^verbatim>\<open>int\<close> the language leaves the shift
  undefined; the model keeps the same formula there, the value a compiler gives that
  folds the over-wide shift to 0. Likewise \<^verbatim>\<open>sum >> k\<close> is the logical shift
  of the 32-bit accumulator, which is 0 from \<open>k = 32\<close> on. The conversion of the
  shifted sum to \<^verbatim>\<open>uint16_t\<close> keeps its low 16 bits.
\<close>

definition readAveraged ::
  "u8 \<Rightarrow> 'h analog_read \<Rightarrow> u8 \<Rightarrow> reader \<times> 'h \<Rightarrow> u16 \<times> reader \<times> 'h" where
  "readAveraged AVG_POW2 analogRead pin s =
     (case s of (r, h) \<Rightarrow>
        let samples = (push_bit (unat AVG_POW2) 1 :: u16)
        in (case sum_loop analogRead pin samples 0 0 h of
              (acc, h1) \<Rightarrow> (ucast (drop_bit (unat AVG_POW2) acc), r, h1)))"

text \<open>
  The two oversampling reads start with a \<^verbatim>\<open>static_assert\<close>: an instance
  with \<^verbatim>\<open>OUTPUT_BITS\<close> outside 10..16 does not build, which is the error
  value here.
\<close>

datatype build_error = OUTPUT_BITS_must_be_between_10_and_16

definition readHighRes ::
  "u8 \<Rightarrow> 'h analog_read \<Rightarrow> u8 \<Rightarrow> reader \<times> 'h \<Rightarrow> build_error + u16 \<times> reader \<times> 'h" where
  "readHighRes OUTPUT_BITS analogRead pin s =
     (if \<not> (OUTPUT_BITS \<ge> 10 \<and> OUTPUT_BITS \<le> 16)
      then Inl OUTPUT_BITS_must_be_between_10_and_16
      else (case s of (r, h) \<Rightarrow>
        let extraBits = OUTPUT_BITS - 10;
            samples = (push_bit (2 * unat extraBits) 1 :: u16)
        in (case sum_loop analogRead pin samples 0 0 h of
              (acc, h1) \<Rightarrow>
                let avg = (ucast (drop_bit (2 * unat extraBits) acc) :: u16)
                in Inr (push_bit (unat extraBits) avg, r, h1))))"

text \<open>
  \<^verbatim>\<open>totalPow2\<close> is a \<^verbatim>\<open>uint8_t\<close>: the sum
  \<^verbatim>\<open>(2 * extraBits) + AVG_POW2\<close> is reduced modulo 256.
\<close>

definition readHighResAveraged ::
  "u8 \<Rightarrow> u8 \<Rightarrow> 'h analog_read \<Rightarrow> u8 \<Rightarrow> reader \<times> 'h
     \<Rightarrow> build_error + u16 \<times> reader \<times> 'h" where
  "readHighResAveraged OUTPUT_BITS AVG_POW2 analogRead pin s =
     (if \<not> (OUTPUT_BITS \<ge> 10 \<and> OUTPUT_BITS \<le> 16)
      then Inl OUTPUT_BITS_must_be_between_10_and_16
      else (case s of (r, h) \<Rightarrow>
        let extraBits = OUTPUT_BITS - 10;
            totalPow2 = (2 * extraBits) + AVG_POW2;
            samples = (push_bit (unat totalPow2) 1 :: u16)
        in (case sum_loop analogRead pin samples 0 0 h of
              (acc, h1) \<Rightarrow>
                let avg = (ucast (drop_bit (unat totalPow2) acc) :: u16)
                in Inr (push_bit (unat extraBits) avg, r, h1))))"

subsection \<open>Consecutive samples\<close>

text \<open>
  \<open>poll analogRead pin n h\<close> is what \<open>n\<close> consecutive calls of
  \<^verbatim>\<open>analogRead(pin)\<close> from the hardware state \<open>h\<close> give: the samples in
  order, and the hardware state after the last call.
\<close>

fun poll :: "'h analog_read \<Rightarrow> u8 \<Rightarrow> nat \<Rightarrow> 'h \<Rightarrow> u16 list \<times> 'h" where
  "poll analogRead pin 0 h = ([], h)"
| "poll analogRead pin (Suc n) h =
     (case analogRead pin h of (x, h1) \<Rightarrow>
        (case poll analogRead pin n h1 of (xs, h2) \<Rightarrow> (x # xs, h2)))"

subsection \<open>The two-stage computation of the specification\<close>

text \<open>
  The specification describes \<^verbatim>\<open>readHighResAveraged\<close> as "performing
  oversample-decimate and then additional power-of-two averaging on the decimated
  values". These definitions follow those words, not the source, to be compared with
  the source's single pass: the samples are cut into \<open>2 ^ AVG_POW2\<close> consecutive
  groups of \<open>2 ^ (2 * extraBits)\<close>; each group is decimated as
  \<^verbatim>\<open>readHighRes\<close> does it (\<^verbatim>\<open>avg = sum >> (2*extraBits)\<close>, result
  \<^verbatim>\<open>avg << extraBits\<close>); the decimated values, which are
  \<^verbatim>\<open>uint16_t\<close>, are summed in a 32-bit accumulator and the sum is shifted
  right by \<^verbatim>\<open>AVG_POW2\<close>.
\<close>

fun chunks :: "nat \<Rightarrow> nat \<Rightarrow> 'a list \<Rightarrow> 'a list list" where
  "chunks 0 g xs = []"
| "chunks (Suc n) g xs = take g xs # chunks n g (drop g xs)"

definition spec_decimate :: "nat \<Rightarrow> u16 list \<Rightarrow> u16" where
  "spec_decimate extraBits xs =
     push_bit extraBits
       (ucast (drop_bit (2 * extraBits) (sum_list (map scast xs) :: u32)) :: u16)"

definition spec_decimate_then_average :: "nat \<Rightarrow> nat \<Rightarrow> u16 list \<Rightarrow> u16" where
  "spec_decimate_then_average extraBits AVG_POW2 xs =
     (let decimated =
            map (spec_decimate extraBits) (chunks (2 ^ AVG_POW2) (2 ^ (2 * extraBits)) xs)
      in ucast (drop_bit AVG_POW2 (sum_list (map ucast decimated) :: u32)))"

subsection \<open>A test double\<close>

text \<open>
  A test double for \<^verbatim>\<open>analogRead\<close>: the board holds a queue of samples, the
  level it reads once the queue is empty, and a count of the conversions made. A
  conversion takes the next sample of the queue and does not touch
  \<^verbatim>\<open>ADCSRA\<close>.
\<close>

record adc_mock = hw +
  pending :: "u16 list"
  level :: u16
  conversions :: nat

definition mock_analogRead :: "adc_mock analog_read" where
  "mock_analogRead pin h =
     (case pending h of
        [] \<Rightarrow> (level h, h\<lparr>conversions := Suc (conversions h)\<rparr>)
      | x # xs \<Rightarrow> (x, h\<lparr>pending := xs, conversions := Suc (conversions h)\<rparr>))"

definition mock_board :: "u8 \<Rightarrow> u16 list \<Rightarrow> u16 \<Rightarrow> adc_mock" where
  "mock_board v xs l = \<lparr>ADCSRA = v, pending = xs, level = l, conversions = 0\<rparr>"

section \<open>The summation loop and the shifts\<close>

lemma unat_inc_less:
  fixes i m :: "'a::len word"
  assumes "i < m"
  shows "unat (i + 1) = Suc (unat i)"
proof -
  have "unat i < unat m" using assms by (simp add: word_less_nat_alt)
  moreover have "unat m < 2 ^ LENGTH('a)" by (rule unsigned_less)
  ultimately have "Suc (unat i) < 2 ^ LENGTH('a)" by linarith
  then have "unat i + unat (1 :: 'a word) < 2 ^ LENGTH('a)" by simp
  then have "unat (i + 1) = unat i + unat (1 :: 'a word)" by (simp only: unat_add_lem)
  then show ?thesis by simp
qed

lemma sum_loop_poll:
  "sum_loop analogRead pin samples i acc h =
     (case poll analogRead pin (unat samples - unat i) h of
        (xs, h') \<Rightarrow> (acc + sum_list (map scast xs), h'))"
proof (induction analogRead pin samples i acc h rule: sum_loop.induct)
  case (1 analogRead pin samples i acc h)
  show ?case
  proof (cases "i < samples")
    case True
    then have lt: "unat i < unat samples" by (simp add: word_less_nat_alt)
    have suc: "unat (i + 1) = Suc (unat i)"
      using True by (rule unat_inc_less)
    obtain x h1 where ar: "analogRead pin h = (x, h1)" by (cases "analogRead pin h")
    have d: "unat samples - unat i = Suc (unat samples - unat (i + 1))"
      using lt suc by simp
    show ?thesis
      using "1.IH" [OF True ar [symmetric]] True ar
      apply (subst sum_loop.simps)
      apply (simp only: d)
      apply (simp add: split: prod.splits)
      done
  next
    case False
    then have "unat samples - unat i = 0" by (simp add: word_less_nat_alt)
    with False show ?thesis by (subst sum_loop.simps) simp
  qed
qed

lemma sum_loop_from_0:
  "sum_loop analogRead pin samples 0 0 h =
     (case poll analogRead pin (unat samples) h of
        (xs, h') \<Rightarrow> (sum_list (map scast xs), h'))"
  by (simp add: sum_loop_poll)

lemma unat_samples: "unat (push_bit k 1 :: u16) = 2 ^ k mod 2 ^ 16"
proof -
  have "(push_bit k 1 :: u16) = of_nat (2 ^ k)" by (simp add: push_bit_eq_mult)
  then show ?thesis by (simp only: unat_of_nat) simp
qed

lemma unat_samples_small: "k < 16 \<Longrightarrow> unat (push_bit k 1 :: u16) = 2 ^ k"
proof -
  assume "k < 16"
  then have "(2::nat) ^ k < 2 ^ 16" by (rule power_strict_increasing) simp
  then show ?thesis by (simp only: unat_samples mod_less)
qed

lemma length_poll: "poll analogRead pin n h = (xs, h') \<Longrightarrow> length xs = n"
  by (induction n arbitrary: h xs) (auto split: prod.splits)

lemma sum_list_scast:
  "(sum_list (map scast xs) :: u32) = word_of_int (sum_list (map sint (xs :: u16 list)))"
  by (induction xs) simp_all

lemma uint_sum_scast:
  "uint (sum_list (map scast xs) :: u32) = sum_list (map sint (xs :: u16 list)) mod 2 ^ 32"
  by (simp only: sum_list_scast uint_word_of_int) simp

lemma uint_avg:
  "uint (ucast (drop_bit k (acc :: u32)) :: u16) = (uint acc div 2 ^ k) mod 2 ^ 16"
proof -
  have "uint acc mod 2 ^ 32 = uint acc"
    using uint_bounded [of acc] by simp
  then have "uint (drop_bit k acc) = drop_bit k (uint acc)"
    by (simp only: unsigned_drop_bit_eq take_bit_eq_mod) simp
  then show ?thesis
    by (simp only: unsigned_ucast_eq take_bit_eq_mod drop_bit_eq_div) simp
qed

lemma int_shift_trunc:
  assumes "k \<le> 16"
  shows "((a mod 2 ^ 32) div 2 ^ k) mod 2 ^ 16 = ((a :: int) div 2 ^ k) mod 2 ^ 16"
proof -
  have m: "min 16 (32 - k) = 16" using assms by simp
  have "take_bit 16 (drop_bit k (take_bit 32 a)) = take_bit 16 (drop_bit k a)"
    by (simp only: drop_bit_take_bit take_bit_take_bit m)
  then show ?thesis by (simp only: take_bit_eq_mod drop_bit_eq_div)
qed

lemma uint_avg_sum:
  assumes "k \<le> 16"
  shows "uint (ucast (drop_bit k (sum_list (map scast xs) :: u32)) :: u16)
           = (sum_list (map sint (xs :: u16 list)) div 2 ^ k) mod 2 ^ 16"
  by (simp only: uint_avg uint_sum_scast int_shift_trunc [OF assms])

lemma uint_push_u16: "uint (push_bit e (w :: u16)) = (uint w * 2 ^ e) mod 2 ^ 16"
  using unsigned_push_bit_eq [of e w, where ?'a = int]
  by (simp only: take_bit_eq_mod push_bit_eq_mult) simp

lemma sint_inrange:
  assumes "unat (x :: u16) \<le> 1023"
  shows "sint x = int (unat x)"
proof -
  have u: "uint x = int (unat x)" by (rule uint_nat)
  have "int (unat x) < 32768" using assms by linarith
  then have "uint x < 2 ^ 15" by (simp only: u) simp
  moreover have "- (2 ^ 15) \<le> uint x"
  proof -
    have "- 32768 \<le> uint x" using uint_nonnegative [of x] by linarith
    then show ?thesis by simp
  qed
  ultimately have "signed_take_bit 15 (uint x) = uint x"
    by (rule signed_take_bit_int_eq_self [rotated])
  moreover have "sint x = signed_take_bit (LENGTH(16) - Suc 0) (uint x)"
    by (rule sint_uint)
  ultimately have "sint x = uint x" by simp
  then show ?thesis by (simp only: u)
qed

lemma sum_sint_inrange:
  "\<forall>x\<in>set xs. unat (x :: u16) \<le> 1023 \<Longrightarrow>
   sum_list (map sint xs) = int (sum_list (map unat xs))"
  by (induction xs) (simp_all add: sint_inrange)

lemma sum_unat_bound:
  "\<forall>x\<in>set xs. unat (x :: u16) \<le> 1023 \<Longrightarrow> sum_list (map unat xs) \<le> 1023 * length xs"
  by (induction xs) auto

lemma extraBits_range:
  assumes "10 \<le> (OUTPUT_BITS :: u8)" "OUTPUT_BITS \<le> 16"
  shows "unat (OUTPUT_BITS - 10) = unat OUTPUT_BITS - 10" "unat (OUTPUT_BITS - 10) \<le> 6"
proof -
  show e: "unat (OUTPUT_BITS - 10) = unat OUTPUT_BITS - 10"
    using assms(1) by (simp add: unat_sub)
  have "unat OUTPUT_BITS \<le> 16" using assms(2) by (simp add: word_le_nat_alt)
  then show "unat (OUTPUT_BITS - 10) \<le> 6" using e by simp
qed

lemma readHighRes_poll:
  assumes "10 \<le> OUTPUT_BITS" "OUTPUT_BITS \<le> 16"
  shows "readHighRes OUTPUT_BITS analogRead pin (r, h) =
     (case poll analogRead pin (2 ^ (2 * unat (OUTPUT_BITS - 10))) h of
        (xs, h') \<Rightarrow>
          Inr (push_bit (unat (OUTPUT_BITS - 10))
                (ucast (drop_bit (2 * unat (OUTPUT_BITS - 10))
                   (sum_list (map scast xs) :: u32)) :: u16), r, h'))"
proof -
  have "2 * unat (OUTPUT_BITS - 10) < 16"
    using extraBits_range(2) [OF assms] by simp
  then have "unat (push_bit (2 * unat (OUTPUT_BITS - 10)) 1 :: u16)
               = 2 ^ (2 * unat (OUTPUT_BITS - 10))"
    by (rule unat_samples_small)
  then show ?thesis
    using assms
    by (simp only: readHighRes_def prod.case Let_def sum_loop_from_0 simp_thms if_False)
       (simp split: prod.splits)
qed


lemma readAveraged_poll:
  "readAveraged AVG_POW2 analogRead pin (r, h) =
     (case poll analogRead pin (2 ^ unat AVG_POW2 mod 2 ^ 16) h of
        (xs, h') \<Rightarrow>
          (ucast (drop_bit (unat AVG_POW2) (sum_list (map scast xs) :: u32)), r, h'))"
  by (simp only: readAveraged_def prod.case Let_def sum_loop_from_0 unat_samples)
     (simp split: prod.splits)

lemma readHighResAveraged_poll:
  assumes "10 \<le> OUTPUT_BITS" "OUTPUT_BITS \<le> 16"
  shows "readHighResAveraged OUTPUT_BITS AVG_POW2 analogRead pin (r, h) =
     (case poll analogRead pin (2 ^ unat (2 * (OUTPUT_BITS - 10) + AVG_POW2) mod 2 ^ 16) h of
        (xs, h') \<Rightarrow>
          Inr (push_bit (unat (OUTPUT_BITS - 10))
                (ucast (drop_bit (unat (2 * (OUTPUT_BITS - 10) + AVG_POW2))
                   (sum_list (map scast xs) :: u32)) :: u16), r, h'))"
  using assms
  by (simp only: readHighResAveraged_def prod.case Let_def sum_loop_from_0 unat_samples
        simp_thms if_False)
     (simp split: prod.splits)

lemma totalPow2_small:
  assumes "10 \<le> (OUTPUT_BITS :: u8)" "OUTPUT_BITS \<le> 16"
    and "2 * (unat OUTPUT_BITS - 10) + unat (AVG_POW2 :: u8) \<le> 15"
  shows "unat (2 * (OUTPUT_BITS - 10) + AVG_POW2) = 2 * (unat OUTPUT_BITS - 10) + unat AVG_POW2"
proof -
  note e = extraBits_range [OF assms(1,2)]
  have "unat (2 :: u8) * unat (OUTPUT_BITS - 10) < 2 ^ LENGTH(8)" using e(2) by simp
  then have m: "unat (2 * (OUTPUT_BITS - 10)) = unat (2 :: u8) * unat (OUTPUT_BITS - 10)"
    by (simp only: unat_mult_lem)
  then have m': "unat (2 * (OUTPUT_BITS - 10)) = 2 * (unat OUTPUT_BITS - 10)"
    by (simp only: e(1)) simp
  have "unat (2 * (OUTPUT_BITS - 10)) + unat AVG_POW2 < 2 ^ LENGTH(8)"
    using assms(3) by (simp only: m') simp
  then have "unat (2 * (OUTPUT_BITS - 10) + AVG_POW2)
               = unat (2 * (OUTPUT_BITS - 10)) + unat AVG_POW2"
    by (simp only: unat_add_lem)
  then show ?thesis by (simp only: m')
qed

lemma sum_list_const: "\<forall>x\<in>set xs. f x = (c :: int) \<Longrightarrow> sum_list (map f xs) = int (length xs) * c"
  by (induction xs) (simp_all add: algebra_simps)

lemma pow2_small: "k \<le> 15 \<Longrightarrow> (2 :: nat) ^ k mod 2 ^ 16 = 2 ^ k"
proof -
  assume "k \<le> 15"
  then have "(2 :: nat) ^ k < 2 ^ 16" by (intro power_strict_increasing) simp_all
  then show ?thesis by (rule mod_less)
qed

lemma avg_inrange:
  assumes "\<forall>x\<in>set xs. unat (x :: u16) \<le> 1023" and "length xs = 2 ^ k"
  shows "sum_list (map unat xs) div 2 ^ k \<le> 1023"
proof -
  have "sum_list (map unat xs) \<le> 1023 * 2 ^ k"
    using sum_unat_bound [OF assms(1)] by (simp only: assms(2))
  then have "sum_list (map unat xs) div 2 ^ k \<le> (1023 * 2 ^ k) div 2 ^ k"
    by (rule div_le_mono)
  then show ?thesis by simp
qed

lemma poll_mock_level:
  "poll mock_analogRead pin n \<lparr>ADCSRA = v, pending = [], level = l, conversions = c\<rparr>
     = (replicate n l, \<lparr>ADCSRA = v, pending = [], level = l, conversions = c + n\<rparr>)"
  by (induction n arbitrary: c) (simp_all add: mock_analogRead_def)

lemma poll_mock_pending:
  "poll mock_analogRead pin (length xs) \<lparr>ADCSRA = v, pending = xs @ ys, level = l, conversions = c\<rparr>
     = (xs, \<lparr>ADCSRA = v, pending = ys, level = l, conversions = c + length xs\<rparr>)"
  by (induction xs arbitrary: c) (simp_all add: mock_analogRead_def)

lemma decimate_uint:
  assumes "e \<le> 6" and "k \<le> 16"
  shows "uint (push_bit e (ucast (drop_bit k (sum_list (map scast xs) :: u32)) :: u16))
           = ((sum_list (map sint (xs :: u16 list)) div 2 ^ k) * 2 ^ e) mod 2 ^ 16"
  by (simp only: uint_push_u16 uint_avg_sum [OF assms(2)] mod_mult_left_eq)

lemma decimate_inrange:
  assumes "e \<le> 6" and "k \<le> 16"
    and r: "\<forall>x\<in>set xs. unat (x :: u16) \<le> 1023" and len: "length xs = 2 ^ k"
  shows "unat (push_bit e (ucast (drop_bit k (sum_list (map scast xs) :: u32)) :: u16))
           = (sum_list (map unat xs) div 2 ^ k) * 2 ^ e"
proof -
  let ?v = "push_bit e (ucast (drop_bit k (sum_list (map scast xs) :: u32)) :: u16)"
  let ?q = "sum_list (map unat xs) div 2 ^ k"
  have q: "?q \<le> 1023" using r len by (rule avg_inrange)
  have "(2 :: nat) ^ e \<le> 2 ^ 6" using assms(1) by (intro power_increasing) simp_all
  then have "?q * 2 ^ e \<le> 1023 * 2 ^ 6" using q by (intro mult_le_mono)
  then have "?q * 2 ^ e < 2 ^ 16" by simp
  then have m: "(?q * 2 ^ e) mod 2 ^ 16 = ?q * 2 ^ e" by (rule mod_less)
  have "uint ?v = int ((?q * 2 ^ e) mod 2 ^ 16)"
    by (simp only: decimate_uint [OF assms(1,2)] sum_sint_inrange [OF r])
       (simp add: zdiv_int zmod_int)
  then have "uint ?v = int (?q * 2 ^ e)" by (simp only: m)
  then show ?thesis by (simp only: unat_eq_nat_uint nat_int)
qed

lemma single_sample:
  "ucast (drop_bit 0 (sum_list (map scast [x :: u16]) :: u32)) = x"
proof -
  have "uint (ucast (drop_bit 0 (sum_list (map scast [x]) :: u32)) :: u16)
          = (sum_list (map sint [x]) div 2 ^ 0) mod 2 ^ 16"
    by (rule uint_avg_sum) simp
  also have "\<dots> = uint x" by (simp add: uint_sint take_bit_eq_mod)
  finally show ?thesis by (rule word_uint_eqI)
qed

lemma unat_from_uint: "uint (w :: 'a::len word) = int n \<Longrightarrow> unat w = n"
  by (simp only: unat_eq_nat_uint nat_int)

lemma unat_sum_inrange:
  assumes r: "\<forall>x\<in>set xs. unat (x :: u16) \<le> 1023" and len: "length xs < 2 ^ 16"
  shows "unat (sum_list (map scast xs) :: u32) = sum_list (map unat xs)"
proof -
  have "sum_list (map unat xs) \<le> 1023 * length xs" using r by (rule sum_unat_bound)
  also have "\<dots> < 2 ^ 32" using len by simp
  finally have b: "sum_list (map unat xs) < 2 ^ 32" .
  then have "sum_list (map unat xs) mod 2 ^ 32 = sum_list (map unat xs)" by (rule mod_less)
  moreover have "uint (sum_list (map scast xs) :: u32) = int (sum_list (map unat xs) mod 2 ^ 32)"
    by (simp only: uint_sum_scast sum_sint_inrange [OF r]) (simp add: zmod_int)
  ultimately have "uint (sum_list (map scast xs) :: u32) = int (sum_list (map unat xs))"
    by (simp only:)
  then show ?thesis by (rule unat_from_uint)
qed

lemma unat_avg:
  "unat (ucast (drop_bit k (acc :: u32)) :: u16) = (unat acc div 2 ^ k) mod 2 ^ 16"
proof -
  have "uint (ucast (drop_bit k acc) :: u16) = int ((unat acc div 2 ^ k) mod 2 ^ 16)"
    by (simp only: uint_avg uint_nat [of acc]) (simp add: zdiv_int zmod_int)
  then show ?thesis by (rule unat_from_uint)
qed

lemma poll_fst_snd:
  "poll analogRead pin n h = (fst (poll analogRead pin n h), snd (poll analogRead pin n h))"
  by simp

lemma length_fst_poll: "length (fst (poll analogRead pin n h)) = n"
  using length_poll [OF poll_fst_snd] .

lemma readAveraged_bound:
  assumes r: "\<forall>x\<in>set (fst (poll analogRead pin (2 ^ unat AVG_POW2 mod 2 ^ 16) h)). unat x \<le> 1023"
  shows "unat (fst (readAveraged AVG_POW2 analogRead pin (r0, h))) \<le> 1023"
proof -
  define k where "k = unat AVG_POW2"
  define n :: nat where "n = 2 ^ k mod 2 ^ 16"
  define xs where "xs = fst (poll analogRead pin n h)"
  have len: "length xs = n" by (simp only: xs_def length_fst_poll)
  have n16: "n < 2 ^ 16" by (simp add: n_def)
  have nk: "n \<le> 2 ^ k" by (simp add: n_def)
  have r': "\<forall>x\<in>set xs. unat x \<le> 1023" using r by (simp only: xs_def n_def k_def)
  have v: "fst (readAveraged AVG_POW2 analogRead pin (r0, h))
             = ucast (drop_bit k (sum_list (map scast xs) :: u32))"
    by (simp only: readAveraged_poll k_def [symmetric] n_def [symmetric] xs_def)
       (simp split: prod.splits)
  have s: "unat (sum_list (map scast xs) :: u32) = sum_list (map unat xs)"
    using r' n16 by (intro unat_sum_inrange) (simp_all only: len)
  have "sum_list (map unat xs) \<le> 1023 * n" using sum_unat_bound [OF r'] by (simp only: len)
  also have "\<dots> \<le> 1023 * 2 ^ k" using nk by simp
  finally have "sum_list (map unat xs) div 2 ^ k \<le> (1023 * 2 ^ k) div 2 ^ k"
    by (rule div_le_mono)
  then have q: "sum_list (map unat xs) div 2 ^ k \<le> 1023" by simp
  have "unat (fst (readAveraged AVG_POW2 analogRead pin (r0, h)))
          = (sum_list (map unat xs) div 2 ^ k) mod 2 ^ 16"
    by (simp only: v unat_avg s)
  also have "\<dots> \<le> sum_list (map unat xs) div 2 ^ k" by (rule mod_less_eq_dividend)
  finally show ?thesis using q by (rule order_trans)
qed

lemma readHighRes_bound:
  assumes ob: "10 \<le> OUTPUT_BITS" "OUTPUT_BITS \<le> 16"
    and r: "\<forall>x\<in>set (fst (poll analogRead pin (2 ^ (2 * (unat OUTPUT_BITS - 10))) h)). unat x \<le> 1023"
  shows "\<exists>v h'. readHighRes OUTPUT_BITS analogRead pin (r0, h) = Inr (v, r0, h') \<and>
           unat v \<le> 1023 * 2 ^ (unat OUTPUT_BITS - 10) \<and> unat v < 2 ^ unat OUTPUT_BITS"
proof -
  define e where "e = unat OUTPUT_BITS - 10"
  note er = extraBits_range [OF ob]
  have e: "unat (OUTPUT_BITS - 10) = e" "e \<le> 6" using er by (simp_all add: e_def)
  have "unat (10 :: u8) \<le> unat OUTPUT_BITS" using ob(1) by (simp only: word_le_nat_alt)
  then have "10 \<le> unat OUTPUT_BITS" by simp
  then have ob10: "unat OUTPUT_BITS = 10 + e" by (simp only: e_def)
  define xs where "xs = fst (poll analogRead pin (2 ^ (2 * e)) h)"
  define h' where "h' = snd (poll analogRead pin (2 ^ (2 * e)) h)"
  have p: "poll analogRead pin (2 ^ (2 * e)) h = (xs, h')"
    unfolding xs_def h'_def by (rule poll_fst_snd)
  have len: "length xs = 2 ^ (2 * e)" using p by (rule length_poll)
  have r': "\<forall>x\<in>set xs. unat x \<le> 1023" using r by (simp only: xs_def e_def)
  define v :: u16 where
    "v = push_bit e (ucast (drop_bit (2 * e) (sum_list (map scast xs) :: u32)) :: u16)"
  have rd: "readHighRes OUTPUT_BITS analogRead pin (r0, h) = Inr (v, r0, h')"
    by (simp only: readHighRes_poll [OF ob] e(1) p prod.case v_def)
  have k: "2 * e \<le> 16" using e(2) by simp
  have uv: "unat v = (sum_list (map unat xs) div 2 ^ (2 * e)) * 2 ^ e"
    unfolding v_def using e(2) k r' len by (rule decimate_inrange)
  have "sum_list (map unat xs) div 2 ^ (2 * e) \<le> 1023" using r' len by (rule avg_inrange)
  then have "sum_list (map unat xs) div 2 ^ (2 * e) * 2 ^ e \<le> 1023 * 2 ^ e"
    by (rule mult_le_mono1)
  then have b1: "unat v \<le> 1023 * 2 ^ e" by (simp only: uv)
  have "(1023 :: nat) < 2 ^ 10" by simp
  then have "(1023 :: nat) * 2 ^ e < 2 ^ 10 * 2 ^ e"
    by (rule mult_strict_right_mono) simp
  then have "(1023 :: nat) * 2 ^ e < 2 ^ (10 + e)" by (simp only: power_add)
  with b1 have b2: "unat v < 2 ^ (10 + e)" by (rule le_less_trans)
  have "readHighRes OUTPUT_BITS analogRead pin (r0, h) = Inr (v, r0, h') \<and>
           unat v \<le> 1023 * 2 ^ e \<and> unat v < 2 ^ (10 + e)"
    using rd b1 b2 by (intro conjI)
  then have "\<exists>v h'. readHighRes OUTPUT_BITS analogRead pin (r0, h) = Inr (v, r0, h') \<and>
           unat v \<le> 1023 * 2 ^ e \<and> unat v < 2 ^ (10 + e)"
    by (intro exI)
  then show ?thesis by (simp only: e_def [symmetric]) (simp only: ob10)
qed

lemma readAveraged_hw:
  "snd (snd (readAveraged AVG_POW2 analogRead pin (r, h)))
     = snd (poll analogRead pin (2 ^ unat AVG_POW2 mod 2 ^ 16) h)"
  by (simp only: readAveraged_poll) (simp split: prod.splits)

lemma readAveraged_obj:
  "fst (snd (readAveraged AVG_POW2 analogRead pin (r, h))) = r"
  by (simp only: readAveraged_poll) (simp split: prod.splits)

lemma readHighRes_hw:
  assumes "10 \<le> OUTPUT_BITS" "OUTPUT_BITS \<le> 16"
  shows "\<exists>v. readHighRes OUTPUT_BITS analogRead pin (r, h)
     = Inr (v, r, snd (poll analogRead pin (2 ^ (2 * (unat OUTPUT_BITS - 10))) h))"
  by (simp only: readHighRes_poll [OF assms] extraBits_range(1) [OF assms])
     (simp split: prod.splits)

lemma readHighResAveraged_hw:
  assumes "10 \<le> OUTPUT_BITS" "OUTPUT_BITS \<le> 16"
  shows "\<exists>v. readHighResAveraged OUTPUT_BITS AVG_POW2 analogRead pin (r, h)
     = Inr (v, r, snd (poll analogRead pin
                         (2 ^ unat (2 * (OUTPUT_BITS - 10) + AVG_POW2) mod 2 ^ 16) h))"
  by (simp only: readHighResAveraged_poll [OF assms]) (simp split: prod.splits)

lemma loop_no_overflow:
  assumes r: "\<forall>x\<in>set (fst (poll analogRead pin (unat (samples :: u16)) h)). unat x \<le> 1023"
  shows "sum_loop analogRead pin samples 0 0 h
           = (of_nat (sum_list (map unat (fst (poll analogRead pin (unat samples) h)))),
              snd (poll analogRead pin (unat samples) h))"
    and "unat (fst (sum_loop analogRead pin samples 0 0 h))
           = sum_list (map unat (fst (poll analogRead pin (unat samples) h)))"
    and "sum_list (map unat (fst (poll analogRead pin (unat samples) h))) < 2 ^ 32"
proof -
  define xs where "xs = fst (poll analogRead pin (unat samples) h)"
  have len: "length xs = unat samples" by (simp only: xs_def length_fst_poll)
  have "unat samples < 2 ^ 16" using unsigned_less [of samples, where ?'a = nat] by simp
  then have l16: "length xs < 2 ^ 16" by (simp only: len)
  have r': "\<forall>x\<in>set xs. unat x \<le> 1023" using r by (simp only: xs_def)
  have s: "unat (sum_list (map scast xs) :: u32) = sum_list (map unat xs)"
    using r' l16 by (rule unat_sum_inrange)
  have f: "fst (sum_loop analogRead pin samples 0 0 h) = sum_list (map scast xs)"
    by (simp only: sum_loop_from_0 xs_def) (simp split: prod.splits)
  show u: "unat (fst (sum_loop analogRead pin samples 0 0 h))
           = sum_list (map unat (fst (poll analogRead pin (unat samples) h)))"
    by (simp only: f s) (simp only: xs_def)
  have "sum_list (map unat xs) \<le> 1023 * length xs" using r' by (rule sum_unat_bound)
  also have "\<dots> < 2 ^ 32" using l16 by simp
  finally show "sum_list (map unat (fst (poll analogRead pin (unat samples) h))) < 2 ^ 32"
    by (simp only: xs_def)
  have "fst (sum_loop analogRead pin samples 0 0 h)
          = of_nat (unat (fst (sum_loop analogRead pin samples 0 0 h)))" by simp
  then have "fst (sum_loop analogRead pin samples 0 0 h)
          = of_nat (sum_list (map unat (fst (poll analogRead pin (unat samples) h))))"
    by (simp only: u)
  moreover have "snd (sum_loop analogRead pin samples 0 0 h)
          = snd (poll analogRead pin (unat samples) h)"
    by (simp only: sum_loop_from_0) (simp split: prod.splits)
  ultimately show "sum_loop analogRead pin samples 0 0 h
           = (of_nat (sum_list (map unat (fst (poll analogRead pin (unat samples) h)))),
              snd (poll analogRead pin (unat samples) h))"
    by (simp add: prod_eq_iff)
qed

lemma poll_preserves_ADCSRA:
  assumes "\<forall>p s. ADCSRA (snd (analogRead p s)) = ADCSRA s"
  shows "ADCSRA (snd (poll analogRead pin n h)) = ADCSRA h"
proof (induction n arbitrary: h)
  case 0
  show ?case by simp
next
  case (Suc n)
  obtain x h1 where a: "analogRead pin h = (x, h1)" by (cases "analogRead pin h")
  then have "ADCSRA h1 = ADCSRA h" using assms [rule_format, of pin h] by simp
  then show ?case using Suc [of h1] a by (auto split: prod.splits)
qed

lemma mock_preserves_ADCSRA: "\<forall>p s. ADCSRA (snd (mock_analogRead p s)) = ADCSRA s"
  by (simp add: mock_analogRead_def split: list.splits)

lemma read_poll:
  "read analogRead pin (r, h) = (case poll analogRead pin 1 h of (xs, h') \<Rightarrow> (hd xs, r, h'))"
  by (simp add: read_def split: prod.splits)

lemma conversions_poll_mock_pair:
  "poll mock_analogRead pin n h = (xs, h') \<Longrightarrow> conversions h' = conversions h + n"
  by (induction n arbitrary: h xs h')
     (auto simp: mock_analogRead_def split: prod.splits list.splits)

lemma conversions_poll_mock:
  "conversions (snd (poll mock_analogRead pin n h)) = conversions h + n"
  using conversions_poll_mock_pair [OF poll_fst_snd] .

subsection \<open>One pass against two stages\<close>

lemma floor_sums:
  fixes ss :: "nat list" and G :: nat
  assumes "0 < G"
  shows "G * sum_list (map (\<lambda>s. s div G) ss) \<le> sum_list ss"
    and "sum_list ss + length ss \<le> G * (sum_list (map (\<lambda>s. s div G) ss) + length ss)"
proof -
  show "G * sum_list (map (\<lambda>s. s div G) ss) \<le> sum_list ss"
  proof (induction ss)
    case Nil
    show ?case by simp
  next
    case (Cons s ss)
    have "G * (s div G) \<le> s" by simp
    then have "G * (s div G) + G * sum_list (map (\<lambda>s. s div G) ss) \<le> s + sum_list ss"
      using Cons by (rule add_mono)
    then show ?case by (simp add: algebra_simps)
  qed
  show "sum_list ss + length ss \<le> G * (sum_list (map (\<lambda>s. s div G) ss) + length ss)"
  proof (induction ss)
    case Nil
    show ?case by simp
  next
    case (Cons s ss)
    have "s mod G < G" using assms by simp
    then have "s mod G + 1 \<le> G" by simp
    moreover have "s = G * (s div G) + s mod G" by simp
    ultimately have "s + 1 \<le> G * (s div G) + G" by linarith
    with Cons show ?case by (simp add: algebra_simps)
  qed
qed

lemma two_stage_close:
  fixes ss :: "nat list" and G A E :: nat
  assumes G: "0 < G" and A: "0 < A" and E: "0 < E" and len: "length ss = A"
  shows "(sum_list ss div (G * A)) * E \<le> (E * sum_list (map (\<lambda>s. s div G) ss)) div A + E"
    and "(E * sum_list (map (\<lambda>s. s div G) ss)) div A < (sum_list ss div (G * A)) * E + E"
proof -
  define Q where "Q = sum_list (map (\<lambda>s. s div G) ss)"
  define S where "S = sum_list ss"
  define m where "m = Q div A"
  define p where "p = S div (G * A)"
  define T where "T = (E * Q) div A"
  have lo: "G * Q \<le> S" unfolding Q_def S_def using G by (rule floor_sums(1))
  have hi: "S + A \<le> G * (Q + A)"
    using floor_sums(2) [OF G, of ss] by (simp only: Q_def S_def len)
  have p': "p = (S div G) div A" by (simp add: p_def div_mult2_eq)
  have "Q \<le> S div G"
  proof -
    have "(G * Q) div G \<le> S div G" using lo by (rule div_le_mono)
    then show ?thesis using G by simp
  qed
  then have mp: "m \<le> p" unfolding m_def p' by (rule div_le_mono)
  have "S < G * (Q + A)" using hi A by linarith
  then have sg: "S div G < Q + A" using G by (simp add: less_mult_imp_div_less mult.commute)
  have qm: "Q < A * (m + 1)"
  proof -
    have "Q = A * m + Q mod A" by (simp add: m_def)
    moreover have "Q mod A < A" using A by simp
    ultimately show ?thesis by (simp add: algebra_simps)
  qed
  have "S div G < A * (m + 2)" using sg qm by (simp add: algebra_simps)
  then have "p < m + 2" unfolding p' using A by (simp add: less_mult_imp_div_less mult.commute)
  then have pm: "p \<le> m + 1" by simp
  have am: "A * m \<le> Q" by (simp add: m_def)
  have Tlo: "E * m \<le> T"
  proof -
    have "E * (A * m) \<le> E * Q" using am by (rule mult_le_mono2)
    then have "(E * (A * m)) div A \<le> (E * Q) div A" by (rule div_le_mono)
    moreover have "(E * (A * m)) div A = E * m" using A by simp
    ultimately show ?thesis by (simp only: T_def)
  qed
  have Thi: "T < E * (m + 1)"
  proof -
    have "E * Q < E * (A * (m + 1))" using qm E by (simp only: mult_less_cancel1)
    moreover have "E * (A * (m + 1)) = (E * (m + 1)) * A" by (simp only: mult_ac)
    ultimately have "E * Q < (E * (m + 1)) * A" by (simp only:)
    then show ?thesis unfolding T_def by (rule less_mult_imp_div_less)
  qed
  have "p * E \<le> (m + 1) * E" using pm by (rule mult_le_mono1)
  also have "\<dots> = E * m + E" by (simp add: algebra_simps)
  also have "\<dots> \<le> T + E" using Tlo by simp
  finally have r1: "p * E \<le> T + E" .
  have "T < E * m + E" using Thi by (simp add: algebra_simps)
  also have "\<dots> \<le> p * E + E" using mp by (simp add: mult.commute)
  finally have r2: "T < p * E + E" .
  show "(sum_list ss div (G * A)) * E \<le> (E * sum_list (map (\<lambda>s. s div G) ss)) div A + E"
    using r1 by (simp only: p_def T_def S_def Q_def)
  show "(E * sum_list (map (\<lambda>s. s div G) ss)) div A < (sum_list ss div (G * A)) * E + E"
    using r2 by (simp only: p_def T_def S_def Q_def)
qed

lemma two_stage_equal:
  fixes ss :: "nat list" and G A E :: nat
  assumes G: "0 < G" and A: "0 < A" and len: "length ss = A"
    and c: "A = 1 \<or> (G = 1 \<and> E = 1) \<or> (\<forall>s\<in>set ss. s = G * c)"
  shows "(E * sum_list (map (\<lambda>s. s div G) ss)) div A = (sum_list ss div (G * A)) * E"
proof -
  consider (one) "A = 1" | (flat) "G = 1" "E = 1" | (const) "\<forall>s\<in>set ss. s = G * c"
    using c by blast
  then show ?thesis
  proof cases
    case one
    then obtain s where "ss = [s]" using len by (cases ss) simp_all
    then show ?thesis using one by (simp add: mult.commute)
  next
    case flat
    then show ?thesis by simp
  next
    case const
    have q: "sum_list (map (\<lambda>s. s div G) ss) = length ss * c"
      using const G by (induction ss) simp_all
    have s: "sum_list ss = length ss * (G * c)"
      using const by (induction ss) simp_all
    have "(E * (A * c)) div A = E * c" using A by simp
    moreover have "(A * (G * c)) div (G * A) = c" using A G by (simp add: mult_ac)
    ultimately show ?thesis by (simp only: q s len) (simp add: mult.commute)
  qed
qed

lemma length_chunks: "length (chunks n g xs) = n"
  by (induction n arbitrary: xs) simp_all

lemma chunks_sums:
  "sum_list (map (\<lambda>c. sum_list (map f c)) (chunks n g xs))
     = (sum_list (map f (take (n * g) xs)) :: nat)"
proof (induction n arbitrary: xs)
  case 0
  show ?case by simp
next
  case (Suc n)
  have "take (Suc n * g) xs = take g xs @ take (n * g) (drop g xs)"
    by (simp add: take_add)
  then show ?case using Suc [of "drop g xs"] by simp
qed

lemma chunks_members:
  "n * g \<le> length xs \<Longrightarrow> c \<in> set (chunks n g xs) \<Longrightarrow> length c = g \<and> set c \<subseteq> set xs"
proof (induction n arbitrary: xs)
  case 0
  then show ?case by simp
next
  case (Suc n)
  from Suc.prems(1) have g: "g \<le> length xs" and r: "n * g \<le> length (drop g xs)" by simp_all
  from Suc.prems(2) consider "c = take g xs" | "c \<in> set (chunks n g (drop g xs))" by auto
  then show ?case
  proof cases
    case 1
    then show ?thesis using g by (auto dest: in_set_takeD)
  next
    case 2
    then have "length c = g \<and> set c \<subseteq> set (drop g xs)" using Suc.IH [OF r] by blast
    then show ?thesis by (auto dest: in_set_dropD)
  qed
qed

lemma sum_list_ucast:
  "(sum_list (map ucast ds) :: u32) = of_nat (sum_list (map unat (ds :: u16 list)))"
  by (induction ds) simp_all

lemma unat_sum_ucast:
  assumes "sum_list (map unat (ds :: u16 list)) < 2 ^ 32"
  shows "unat (sum_list (map ucast ds) :: u32) = sum_list (map unat ds)"
proof -
  have "unat (sum_list (map ucast ds) :: u32) = sum_list (map unat ds) mod 2 ^ LENGTH(32)"
    by (simp only: sum_list_ucast unat_of_nat)
  then show ?thesis using assms by simp
qed

lemma sum_list_mult_const:
  "sum_list (map (\<lambda>x. f x * (E :: nat)) xs) = E * sum_list (map f xs)"
  by (induction xs) (simp_all add: algebra_simps)

lemma two_stage_numeric:
  assumes e: "e \<le> 6" and k: "2 * e + a \<le> 15"
    and r: "\<forall>x\<in>set xs. unat (x :: u16) \<le> 1023"
    and len: "length xs = 2 ^ (2 * e + a)"
  shows "unat (spec_decimate_then_average e a xs)
           = (2 ^ e * sum_list (map (\<lambda>s. s div 2 ^ (2 * e))
                 (map (\<lambda>c. sum_list (map unat c)) (chunks (2 ^ a) (2 ^ (2 * e)) xs)))) div 2 ^ a"
proof -
  define G :: nat where "G = 2 ^ (2 * e)"
  define A :: nat where "A = 2 ^ a"
  define E :: nat where "E = 2 ^ e"
  define cs where "cs = chunks A G xs"
  define ss where "ss = map (\<lambda>c. sum_list (map unat c)) cs"
  define Q where "Q = sum_list (map (\<lambda>s. s div G) ss)"
  have G0: "0 < G" and A0: "0 < A" by (simp_all add: G_def A_def)
  have AG: "A * G = length xs" by (simp add: len G_def A_def power_add)
  have E64: "E \<le> 64"
  proof -
    have "(2 :: nat) ^ e \<le> 2 ^ 6" using e by (intro power_increasing) simp_all
    then show ?thesis by (simp add: E_def)
  qed
  have A15: "A \<le> 2 ^ 15"
    unfolding A_def using k by (intro power_increasing) simp_all
  have mem: "length c = G \<and> set c \<subseteq> set xs" if "c \<in> set cs" for c
    using that unfolding cs_def by (intro chunks_members) (simp_all add: AG)
  have dec: "unat (spec_decimate e c) = (sum_list (map unat c) div G) * E" if "c \<in> set cs" for c
  proof -
    have l: "length c = 2 ^ (2 * e)" using mem [OF that] by (simp add: G_def)
    have rc: "\<forall>x\<in>set c. unat x \<le> 1023" using mem [OF that] r by blast
    have "2 * e \<le> 16" using e by simp
    then show ?thesis
      unfolding spec_decimate_def G_def E_def using e rc l by (intro decimate_inrange)
  qed
  have "map unat (map (spec_decimate e) cs) = map (\<lambda>c. (sum_list (map unat c) div G) * E) cs"
    using dec by simp
  then have "sum_list (map unat (map (spec_decimate e) cs))
               = sum_list (map (\<lambda>c. (sum_list (map unat c) div G) * E) cs)"
    by (simp only:)
  also have "\<dots> = E * sum_list (map (\<lambda>c. sum_list (map unat c) div G) cs)"
    by (rule sum_list_mult_const)
  also have "\<dots> = E * Q" by (simp add: Q_def ss_def comp_def)
  finally have ds: "sum_list (map unat (map (spec_decimate e) cs)) = E * Q" .
  have S: "sum_list ss = sum_list (map unat xs)"
    unfolding ss_def cs_def by (simp add: chunks_sums AG)
  have "G * Q \<le> sum_list ss" unfolding Q_def using G0 by (rule floor_sums(1))
  also have "\<dots> \<le> 1023 * length xs" unfolding S using r by (rule sum_unat_bound)
  also have "\<dots> = G * (1023 * A)" by (simp add: AG [symmetric])
  finally have Qb: "Q \<le> 1023 * A" using G0 by simp
  have "E * Q \<le> 64 * (1023 * A)" using E64 Qb by (rule mult_le_mono)
  also have "\<dots> \<le> 64 * (1023 * 2 ^ 15)" using A15 by simp
  also have "\<dots> < 2 ^ 32" by simp
  finally have EQ32: "E * Q < 2 ^ 32" .
  have acc: "unat (sum_list (map ucast (map (spec_decimate e) cs)) :: u32) = E * Q"
    using EQ32 unat_sum_ucast [of "map (spec_decimate e) cs"] by (simp only: ds)
  have "E * Q \<le> E * (1023 * A)" using Qb by (rule mult_le_mono2)
  then have "(E * Q) div A \<le> (E * (1023 * A)) div A" by (rule div_le_mono)
  also have "(E * (1023 * A)) div A = E * 1023" using A0 by simp
  also have "\<dots> \<le> 64 * 1023" using E64 by simp
  also have "\<dots> < 2 ^ 16" by simp
  finally have T16: "(E * Q) div A < 2 ^ 16" .
  have "unat (spec_decimate_then_average e a xs) = ((E * Q) div 2 ^ a) mod 2 ^ 16"
    unfolding spec_decimate_then_average_def Let_def
    by (simp only: unat_avg A_def [symmetric] G_def [symmetric] cs_def [symmetric] acc)
  also have "\<dots> = (E * Q) div A" using T16 by (simp only: A_def [symmetric] mod_less)
  finally show ?thesis by (simp only: E_def Q_def ss_def cs_def G_def A_def)
qed

lemma readHighRes_spec_decimate:
  assumes "10 \<le> OUTPUT_BITS" "OUTPUT_BITS \<le> 16"
  shows "readHighRes OUTPUT_BITS analogRead pin (r, h) =
     (case poll analogRead pin (2 ^ (2 * (unat OUTPUT_BITS - 10))) h of
        (xs, h') \<Rightarrow> Inr (spec_decimate (unat OUTPUT_BITS - 10) xs, r, h'))"
  by (simp only: readHighRes_poll [OF assms] extraBits_range(1) [OF assms] spec_decimate_def)

section \<open>Saving and restoring the control register\<close>

lemma begin_reader_simp:
  "begin_reader p (r, h) =
     (True,
      r\<lparr>m_prescalerBits := p AND 0x07, m_backupADCSRA := ADCSRA h, m_initialized := True\<rparr>,
      h\<lparr>ADCSRA := (ADCSRA h AND 0xF8) OR (p AND 0x07)\<rparr>)"
  by (simp add: begin_reader_def initialized_def Let_def)

lemma end_reader_simp:
  "end_reader (r, h) =
     (r\<lparr>m_initialized := False\<rparr>,
      if m_initialized r then h\<lparr>ADCSRA := m_backupADCSRA r\<rparr> else h)"
  by (simp add: end_reader_def initialized_def Let_def)

lemma prescaler_field_low:
  "((v AND 0xF8) OR (p AND 0x07)) AND 0x07 = p AND (0x07 :: u8)"
proof -
  have m: "(0x07 :: u8) = mask 3" "(0xF8 :: u8) = NOT (mask 3)"
    by (simp_all add: mask_eq_exp_minus_1)
  show ?thesis unfolding m by (rule bit_word_eqI) (auto simp: bit_simps)
qed

lemma prescaler_field_high:
  "((v AND 0xF8) OR (p AND 0x07)) AND 0xF8 = v AND (0xF8 :: u8)"
proof -
  have m: "(0x07 :: u8) = mask 3" "(0xF8 :: u8) = NOT (mask 3)"
    by (simp_all add: mask_eq_exp_minus_1)
  show ?thesis unfolding m by (rule bit_word_eqI) (auto simp: bit_simps)
qed

text \<open>
  C2. Whatever the argument \<open>p\<close>, the object \<open>r\<close> and the register value
  \<open>ADCSRA h\<close> before the call: \<^verbatim>\<open>begin(p)\<close> returns true, leaves the object
  initialised, and keeps as backup the register value from before the call, not the
  one it writes; the register afterwards is the old value with its low three bits
  replaced by \<open>p AND 7\<close> (the low three bits are those of \<open>p\<close>, the upper five are
  unchanged), and nothing else on the board changes.
\<close>

theorem begin_reader_effect:
  "case begin_reader p (r, h) of
     (ret, r', h') \<Rightarrow>
       ret = True \<and> initialized r' \<and>
       m_backupADCSRA r' = ADCSRA h \<and>
       m_prescalerBits r' = p AND 0x07 \<and>
       ADCSRA h' = (ADCSRA h AND 0xF8) OR (p AND 0x07) \<and>
       ADCSRA h' AND 0x07 = p AND 0x07 \<and>
       ADCSRA h' AND 0xF8 = ADCSRA h AND 0xF8 \<and>
       hw.more h' = hw.more h"
  by (simp add: begin_reader_simp initialized_def prescaler_field_low prescaler_field_high)

text \<open>
  C1. \<^verbatim>\<open>begin(p)\<close> directly followed by \<^verbatim>\<open>end()\<close> leaves the register, and
  the whole board, as it was before \<^verbatim>\<open>begin\<close>, for every register value,
  argument and object: \<^verbatim>\<open>end\<close> writes back the backup taken by
  \<^verbatim>\<open>begin\<close>, and the object is no longer initialised. More generally,
  whatever state \<open>h2\<close> the board has reached when \<^verbatim>\<open>end()\<close> is called on
  the object as \<^verbatim>\<open>begin\<close> left it, the register after \<^verbatim>\<open>end()\<close> is the
  value from before \<^verbatim>\<open>begin\<close>.
\<close>

theorem begin_end_roundtrip:
  "case begin_reader p (r, h) of
     (ret, r1, h1) \<Rightarrow>
       (case end_reader (r1, h1) of
          (r2, h2) \<Rightarrow>
            ADCSRA h2 = ADCSRA h \<and> ADCSRA h2 = m_backupADCSRA r1 \<and>
            h2 = h \<and> \<not> initialized r2) \<and>
       (\<forall>h2. ADCSRA (snd (end_reader (r1, h2))) = ADCSRA h)"
  by (simp add: begin_reader_simp end_reader_simp initialized_def)

text \<open>The scenario of the specification: \<open>0b10100111\<close>, \<^verbatim>\<open>begin(4)\<close>, \<^verbatim>\<open>end()\<close>.\<close>

lemma scenario_begin_end:
  "ADCSRA (snd (snd (begin_reader 4 (ATMega328PAnalogReader, mock_board 0xA7 [] 0)))) = 0xA4"
  "ADCSRA (snd (end_reader (snd (begin_reader 4
      (ATMega328PAnalogReader, mock_board 0xA7 [] 0))))) = 0xA7"
  by (simp_all add: begin_reader_simp end_reader_simp mock_board_def)

text \<open>
  C7. \<^verbatim>\<open>end()\<close> on an object that is not initialised changes neither the
  board (so not the register) nor the object; after any \<^verbatim>\<open>end()\<close> the object
  is not initialised; and a second \<^verbatim>\<open>end()\<close> changes nothing more.
\<close>

theorem end_reader_inactive:
  "(\<not> initialized r \<longrightarrow> end_reader (r, h) = (r, h)) \<and>
   \<not> initialized (fst (end_reader (r, h))) \<and>
   end_reader (end_reader (r, h)) = end_reader (r, h)"
  by (simp add: end_reader_simp initialized_def)

theorem end_reader_inactive_witness:
  "\<not> initialized ATMega328PAnalogReader \<and>
   end_reader (ATMega328PAnalogReader, mock_board 0xA7 [] 0)
     = (ATMega328PAnalogReader, mock_board 0xA7 [] 0) \<and>
   ADCSRA (snd (end_reader (ATMega328PAnalogReader, mock_board 0xA7 [] 0))) = 0xA7"
  using end_reader_inactive [of ATMega328PAnalogReader "mock_board 0xA7 [] 0"]
  by (simp add: initialized_def ATMega328PAnalogReader_def mock_board_def)

text \<open>
  C8. A second \<^verbatim>\<open>begin\<close> on an initialised object takes its backup from the
  register as the first \<^verbatim>\<open>begin(p1)\<close> left it: the backup is the original
  value with its low three bits replaced by \<open>p1 AND 7\<close>, and that is the value a
  following \<^verbatim>\<open>end()\<close> writes to the register.
\<close>

theorem nested_begin_snapshot:
  "case begin_reader p1 (r, h) of
     (ret1, s1) \<Rightarrow>
       (case begin_reader p2 s1 of
          (ret2, s2) \<Rightarrow>
            m_backupADCSRA (fst s2) = (ADCSRA h AND 0xF8) OR (p1 AND 0x07) \<and>
            ADCSRA (snd (end_reader s2)) = (ADCSRA h AND 0xF8) OR (p1 AND 0x07))"
  by (simp add: begin_reader_simp end_reader_simp)

text \<open>From \<open>0b10100111\<close>, \<^verbatim>\<open>begin(4); begin(2); end()\<close> ends at \<open>0b10100100\<close>.\<close>

lemma nested_begin_example:
  "ADCSRA (snd (end_reader (snd (begin_reader 2 (snd (begin_reader 4
      (ATMega328PAnalogReader, mock_board 0xA7 [] 0))))))) = 0xA4"
  by (simp add: begin_reader_simp end_reader_simp mock_board_def)

section \<open>The reads\<close>

text \<open>
  What \<^verbatim>\<open>readAveraged\<close> does while the sample count fits its 16-bit
  variable. For every \<^verbatim>\<open>AVG_POW2\<close> from 0 to 15, every
  \<^verbatim>\<open>analogRead\<close> and every hardware state, \<^verbatim>\<open>readAveraged\<close> makes
  exactly \<open>2 ^ AVG_POW2\<close> consecutive calls of \<^verbatim>\<open>analogRead\<close> (it ends in
  the hardware state \<open>h'\<close> after those calls, and \<open>xs\<close> are their results), leaves
  the object as it was, and returns the 32-bit sum of the samples shifted right by
  \<^verbatim>\<open>AVG_POW2\<close>, converted to 16 bits. In numbers: the result is the sum of
  the samples, read as \<^verbatim>\<open>int\<close>, divided by \<open>2 ^ AVG_POW2\<close> rounding down,
  modulo \<open>2 ^ 16\<close>; when no sample exceeds 1023 it is the sum divided by
  \<open>2 ^ AVG_POW2\<close>. With \<^verbatim>\<open>AVG_POW2 = 0\<close> the result is the single sample,
  and when all samples are equal the result is that sample.
\<close>

lemma readAveraged_average:
  assumes "AVG_POW2 \<le> 15"
  shows "case poll analogRead pin (2 ^ unat AVG_POW2) h of
     (xs, h') \<Rightarrow>
       (case readAveraged AVG_POW2 analogRead pin (r, h) of
          (v, r', h'') \<Rightarrow>
            length xs = 2 ^ unat AVG_POW2 \<and> r' = r \<and> h'' = h' \<and>
            v = ucast (drop_bit (unat AVG_POW2) (sum_list (map scast xs) :: u32)) \<and>
            uint v = (sum_list (map sint xs) div 2 ^ unat AVG_POW2) mod 2 ^ 16 \<and>
            ((\<forall>x\<in>set xs. unat x \<le> 1023) \<longrightarrow>
               unat v = sum_list (map unat xs) div 2 ^ unat AVG_POW2) \<and>
            (AVG_POW2 = 0 \<longrightarrow> xs = [v]) \<and>
            (\<forall>S. (\<forall>x\<in>set xs. x = S) \<longrightarrow> v = S))"
proof -
  define k where "k = unat AVG_POW2"
  have k: "k \<le> 15" using assms by (simp add: k_def word_le_nat_alt)
  obtain xs h' where p: "poll analogRead pin (2 ^ k) h = (xs, h')"
    by (cases "poll analogRead pin (2 ^ k) h")
  define v :: u16 where "v = ucast (drop_bit k (sum_list (map scast xs) :: u32))"
  have rd: "readAveraged AVG_POW2 analogRead pin (r, h) = (v, r, h')"
    by (simp only: readAveraged_poll k_def [symmetric] pow2_small [OF k] p prod.case v_def)
  have len: "length xs = 2 ^ k" using p by (rule length_poll)
  have ui: "uint v = (sum_list (map sint xs) div 2 ^ k) mod 2 ^ 16"
    unfolding v_def using k by (intro uint_avg_sum) simp
  have inr: "unat v = sum_list (map unat xs) div 2 ^ k" if r: "\<forall>x\<in>set xs. unat x \<le> 1023"
  proof -
    let ?q = "sum_list (map unat xs) div 2 ^ k"
    have "?q \<le> 1023" using r len by (rule avg_inrange)
    then have "?q mod 2 ^ 16 = ?q" by simp
    moreover have "uint v = int (?q mod 2 ^ 16)"
      by (simp only: ui sum_sint_inrange [OF r]) (simp add: zdiv_int zmod_int)
    ultimately have "uint v = int ?q" by (simp only:)
    then show ?thesis by (simp only: unat_eq_nat_uint nat_int)
  qed
  have const: "v = S" if c: "\<forall>x\<in>set xs. x = S" for S
  proof -
    have "\<forall>x\<in>set xs. sint x = sint S" using c by simp
    then have "sum_list (map sint xs) = int (length xs) * sint S" by (rule sum_list_const)
    then have "sum_list (map sint xs) = 2 ^ k * sint S" by (simp add: len)
    then have "uint v = sint S mod 2 ^ 16" by (simp only: ui) simp
    also have "\<dots> = uint S" by (simp add: uint_sint take_bit_eq_mod)
    finally show ?thesis by (rule word_uint_eqI)
  qed
  have single: "xs = [v]" if z: "AVG_POW2 = 0"
  proof -
    have k0: "k = 0" using z by (simp add: k_def)
    then obtain x where x: "xs = [x]" using len by (cases xs) simp_all
    then have "v = x" using const [of x] by simp
    then show ?thesis using x by simp
  qed
  show ?thesis
    using len ui inr const single
    by (simp only: k_def [symmetric] p rd prod.case v_def [symmetric]) blast
qed

lemma readAveraged_average_example:
  "(2 :: u8) \<le> 15 \<and>
   readAveraged 2 mock_analogRead 0
       (ATMega328PAnalogReader, mock_board 0x87 [100, 102, 98, 100] 0)
     = (100, ATMega328PAnalogReader,
        \<lparr>ADCSRA = 0x87, pending = [], level = 0, conversions = 4\<rparr>)"
proof -
  let ?b = "mock_board 0x87 [100, 102, 98, 100] 0"
  let ?b' = "\<lparr>ADCSRA = 0x87, pending = [], level = 0, conversions = 4\<rparr>"
  have p: "poll mock_analogRead 0 (2 ^ unat (2 :: u8)) ?b = ([100, 102, 98, 100], ?b')"
    by code_simp
  have le: "(2 :: u8) \<le> 15" by simp
  obtain v r' h'' where
    rd: "readAveraged 2 mock_analogRead 0 (ATMega328PAnalogReader, ?b) = (v, r', h'')"
    by (rule prod_cases3)
  have "r' = ATMega328PAnalogReader \<and> h'' = ?b' \<and>
        v = ucast (drop_bit (unat (2 :: u8))
              (sum_list (map scast [100, 102, 98, 100 :: u16]) :: u32))"
    using readAveraged_average [OF le, where analogRead = mock_analogRead and pin = 0
            and h = ?b and r = ATMega328PAnalogReader]
    by (simp only: p rd prod.case)
  then show ?thesis using le by (simp add: rd)
qed

text \<open>
  C5. For every \<^verbatim>\<open>AVG_POW2\<close>, \<^verbatim>\<open>readAveraged\<close> is to make
  \<open>2 ^ AVG_POW2\<close> consecutive calls of \<^verbatim>\<open>analogRead\<close> and return their
  sum shifted right by \<^verbatim>\<open>AVG_POW2\<close>, so that equal samples give that sample;
  the source's comment says the same, "Averaged read (2^AVG_POW2 samples)". The code
  does so up to 15 and not at 16: the count \<^verbatim>\<open>1 << 16\<close> does not fit the
  16-bit \<^verbatim>\<open>samples\<close>, and on a board whose every sample is 500
  \<^verbatim>\<open>readAveraged<16>\<close> makes no conversion and returns 0, where
  \<^verbatim>\<open>readAveraged<15>\<close> makes 32768 conversions and returns 500. No
  \<^verbatim>\<open>static_assert\<close> guards \<^verbatim>\<open>AVG_POW2\<close> as one guards
  \<^verbatim>\<open>OUTPUT_BITS\<close>.
\<close>

theorem readAveraged_16_takes_no_sample:
  "readAveraged 16 mock_analogRead 0 (ATMega328PAnalogReader, mock_board 0x87 [] 500)
     = (0, ATMega328PAnalogReader, mock_board 0x87 [] 500) \<and>
   conversions (mock_board 0x87 [] 500) = 0 \<and>
   readAveraged 15 mock_analogRead 0 (ATMega328PAnalogReader, mock_board 0x87 [] 500)
     = (500, ATMega328PAnalogReader,
        \<lparr>ADCSRA = 0x87, pending = [], level = 500, conversions = 32768\<rparr>)"
proof -
  let ?b = "mock_board 0x87 [] 500"
  have p: "poll mock_analogRead 0 n ?b
             = (replicate n 500, \<lparr>ADCSRA = 0x87, pending = [], level = 500, conversions = n\<rparr>)"
    for n
    using poll_mock_level [where n = n and c = 0 and pin = 0 and v = "0x87" and l = 500]
    by (simp add: mock_board_def)
  have a: "readAveraged 16 mock_analogRead 0 (ATMega328PAnalogReader, ?b)
             = (0, ATMega328PAnalogReader, ?b)"
    by (simp add: readAveraged_poll mock_board_def)
  have b: "conversions ?b = 0" by (simp add: mock_board_def)
  have c: "readAveraged 15 mock_analogRead 0 (ATMega328PAnalogReader, ?b)
     = (500, ATMega328PAnalogReader,
        \<lparr>ADCSRA = 0x87, pending = [], level = 500, conversions = 32768\<rparr>)"
    by (simp only: readAveraged_poll p) (simp add: sum_list_replicate)
  show ?thesis using a b c by (intro conjI)
qed

text \<open>
  C6. For every \<^verbatim>\<open>OUTPUT_BITS\<close> from 10 to 16, with
  \<open>extraBits = OUTPUT_BITS - 10\<close>, \<^verbatim>\<open>readHighRes\<close> builds, makes exactly
  \<open>2 ^ (2 * extraBits)\<close> consecutive calls of \<^verbatim>\<open>analogRead\<close> (with results
  \<open>xs\<close>, ending in the hardware state \<open>h'\<close>), leaves the object as it was, and
  returns the 32-bit sum of the samples shifted right by \<open>2 * extraBits\<close>, converted
  to 16 bits and shifted left by \<open>extraBits\<close>. In numbers: the sum of the samples
  divided by \<open>4 ^ extraBits\<close> rounding down, times \<open>2 ^ extraBits\<close>, modulo
  \<open>2 ^ 16\<close>, and without the modulo when no sample exceeds 1023. The low
  \<open>extraBits\<close> bits of the result are zero, and \<^verbatim>\<open>readHighRes<10>\<close> returns
  its single sample.
\<close>

theorem readHighRes_decimates:
  assumes "10 \<le> OUTPUT_BITS" "OUTPUT_BITS \<le> 16"
  shows "let extraBits = unat OUTPUT_BITS - 10 in
     case poll analogRead pin (2 ^ (2 * extraBits)) h of
       (xs, h') \<Rightarrow>
         (case readHighRes OUTPUT_BITS analogRead pin (r, h) of
            Inl e \<Rightarrow> False
          | Inr (v, r', h'') \<Rightarrow>
              length xs = 2 ^ (2 * extraBits) \<and> r' = r \<and> h'' = h' \<and>
              v = push_bit extraBits
                    (ucast (drop_bit (2 * extraBits) (sum_list (map scast xs) :: u32)) :: u16) \<and>
              uint v = ((sum_list (map sint xs) div 2 ^ (2 * extraBits)) * 2 ^ extraBits)
                         mod 2 ^ 16 \<and>
              take_bit extraBits v = 0 \<and>
              ((\<forall>x\<in>set xs. unat x \<le> 1023) \<longrightarrow>
                 unat v = (sum_list (map unat xs) div 2 ^ (2 * extraBits)) * 2 ^ extraBits) \<and>
              (OUTPUT_BITS = 10 \<longrightarrow> xs = [v]))"
proof -
  define e where "e = unat OUTPUT_BITS - 10"
  note er = extraBits_range [OF assms]
  have e: "unat (OUTPUT_BITS - 10) = e" "e \<le> 6" using er by (simp_all add: e_def)
  have k: "2 * e \<le> 16" using e(2) by simp
  obtain xs h' where p: "poll analogRead pin (2 ^ (2 * e)) h = (xs, h')"
    by (cases "poll analogRead pin (2 ^ (2 * e)) h")
  define v :: u16 where
    "v = push_bit e (ucast (drop_bit (2 * e) (sum_list (map scast xs) :: u32)) :: u16)"
  have rd: "readHighRes OUTPUT_BITS analogRead pin (r, h) = Inr (v, r, h')"
    by (simp only: readHighRes_poll [OF assms] e(1) p prod.case v_def)
  have len: "length xs = 2 ^ (2 * e)" using p by (rule length_poll)
  have ui: "uint v = ((sum_list (map sint xs) div 2 ^ (2 * e)) * 2 ^ e) mod 2 ^ 16"
    unfolding v_def using e(2) k by (rule decimate_uint)
  have low: "take_bit e v = 0"
    unfolding v_def by (simp add: take_bit_push_bit)
  have inr: "unat v = (sum_list (map unat xs) div 2 ^ (2 * e)) * 2 ^ e"
    if "\<forall>x\<in>set xs. unat x \<le> 1023"
    unfolding v_def using e(2) k that len by (rule decimate_inrange)
  have single: "xs = [v]" if z: "OUTPUT_BITS = 10"
  proof -
    have e0: "e = 0" using z by (simp add: e_def)
    then obtain x where x: "xs = [x]" using len by (cases xs) simp_all
    have "v = x" unfolding v_def x e0 using single_sample [of x] by simp
    then show ?thesis using x by simp
  qed
  show ?thesis
    using len ui low inr single
    by (simp only: Let_def e_def [symmetric] p rd prod.case sum.case v_def [symmetric]) blast
qed

theorem readHighRes_decimates_witness:
  "(10 :: u8) \<le> 12 \<and> (12 :: u8) \<le> 16 \<and>
   readHighRes 12 mock_analogRead 0 (ATMega328PAnalogReader, mock_board 0x87 [] 500)
     = Inr (2000, ATMega328PAnalogReader,
            \<lparr>ADCSRA = 0x87, pending = [], level = 500, conversions = 16\<rparr>) \<and>
   take_bit 2 (2000 :: u16) = 0"
proof -
  let ?b = "mock_board 0x87 [] 500"
  let ?b' = "\<lparr>ADCSRA = 0x87, pending = [], level = 500, conversions = 16\<rparr>"
  have p: "poll mock_analogRead 0 (2 ^ (2 * (unat (12 :: u8) - 10))) ?b = (replicate 16 500, ?b')"
    using poll_mock_level [where n = 16 and c = 0] by (simp add: mock_board_def)
  have le: "(10 :: u8) \<le> 12" "(12 :: u8) \<le> 16" by simp_all
  obtain res where rd: "readHighRes 12 mock_analogRead 0 (ATMega328PAnalogReader, ?b) = res"
    by simp
  have "case res of Inl e \<Rightarrow> False
        | Inr (v, r', h'') \<Rightarrow> r' = ATMega328PAnalogReader \<and> h'' = ?b' \<and>
            unat v = (sum_list (map unat (replicate 16 (500 :: u16))) div 2 ^ (2 * (unat (12 :: u8) - 10)))
                       * 2 ^ (unat (12 :: u8) - 10) \<and>
            take_bit (unat (12 :: u8) - 10) v = 0"
    using readHighRes_decimates [OF le, where analogRead = mock_analogRead and pin = 0
            and h = ?b and r = ATMega328PAnalogReader]
    by (simp only: Let_def p rd prod.case) (auto split: sum.splits)
  then show ?thesis using le
    by (auto simp: rd [symmetric] sum_list_replicate split: sum.splits simp: word_unat_eq_iff)
qed

text \<open>
  C10. If \<^verbatim>\<open>OUTPUT_BITS\<close> is between 10 and 16 and none of the samples that
  \<^verbatim>\<open>readHighRes\<close> takes exceeds 1023, the read builds and its result is
  below \<open>2 ^ OUTPUT_BITS\<close> (indeed at most \<open>1023 * 2 ^ (OUTPUT_BITS - 10)\<close>). If
  none of the samples that \<^verbatim>\<open>readAveraged\<close> takes exceeds 1023, its result
  is at most 1023, whatever \<^verbatim>\<open>AVG_POW2\<close>.
\<close>

theorem output_bounds:
  "(10 \<le> OUTPUT_BITS \<and> OUTPUT_BITS \<le> 16 \<and>
    (\<forall>x\<in>set (fst (poll analogRead pin (2 ^ (2 * (unat OUTPUT_BITS - 10))) h)). unat x \<le> 1023)
      \<longrightarrow> (case readHighRes OUTPUT_BITS analogRead pin (r, h) of
             Inl e \<Rightarrow> False
           | Inr (v, r', h') \<Rightarrow>
               unat v < 2 ^ unat OUTPUT_BITS \<and> unat v \<le> 1023 * 2 ^ (unat OUTPUT_BITS - 10))) \<and>
   ((\<forall>x\<in>set (fst (poll analogRead pin (2 ^ unat AVG_POW2 mod 2 ^ 16) h)). unat x \<le> 1023)
      \<longrightarrow> unat (fst (readAveraged AVG_POW2 analogRead pin (r, h))) \<le> 1023)"
proof (intro conjI impI)
  assume a: "10 \<le> OUTPUT_BITS \<and> OUTPUT_BITS \<le> 16 \<and>
    (\<forall>x\<in>set (fst (poll analogRead pin (2 ^ (2 * (unat OUTPUT_BITS - 10))) h)). unat x \<le> 1023)"
  then obtain v h' where "readHighRes OUTPUT_BITS analogRead pin (r, h) = Inr (v, r, h')"
    "unat v \<le> 1023 * 2 ^ (unat OUTPUT_BITS - 10)" "unat v < 2 ^ unat OUTPUT_BITS"
    using readHighRes_bound [of OUTPUT_BITS analogRead pin h r] by blast
  then show "case readHighRes OUTPUT_BITS analogRead pin (r, h) of
             Inl e \<Rightarrow> False
           | Inr (v, r', h') \<Rightarrow>
               unat v < 2 ^ unat OUTPUT_BITS \<and> unat v \<le> 1023 * 2 ^ (unat OUTPUT_BITS - 10)"
    by simp
next
  assume "\<forall>x\<in>set (fst (poll analogRead pin (2 ^ unat AVG_POW2 mod 2 ^ 16) h)). unat x \<le> 1023"
  then show "unat (fst (readAveraged AVG_POW2 analogRead pin (r, h))) \<le> 1023"
    by (rule readAveraged_bound)
qed

theorem output_bounds_witness:
  "(10 :: u8) \<le> 12 \<and> (12 :: u8) \<le> 16 \<and>
   fst (poll mock_analogRead 0 (2 ^ (2 * (unat (12 :: u8) - 10))) (mock_board 0x87 [] 1023))
     = replicate 16 1023 \<and>
   fst (poll mock_analogRead 0 (2 ^ unat (2 :: u8) mod 2 ^ 16) (mock_board 0x87 [] 1023))
     = replicate 4 1023 \<and>
   unat (1023 :: u16) \<le> 1023 \<and>
   (case readHighRes 12 mock_analogRead 0 (ATMega328PAnalogReader, mock_board 0x87 [] 1023) of
      Inl e \<Rightarrow> False
    | Inr (v, r', h') \<Rightarrow> unat v < 2 ^ unat (12 :: u8) \<and> unat v \<le> 1023 * 2 ^ (unat (12 :: u8) - 10)) \<and>
   unat (fst (readAveraged 2 mock_analogRead 0 (ATMega328PAnalogReader, mock_board 0x87 [] 1023)))
     \<le> 1023"
proof -
  have p1: "fst (poll mock_analogRead 0 (2 ^ (2 * (unat (12 :: u8) - 10))) (mock_board 0x87 [] 1023))
     = replicate 16 1023"
    using poll_mock_level [where n = 16 and c = 0] by (simp add: mock_board_def)
  have p2: "fst (poll mock_analogRead 0 (2 ^ unat (2 :: u8) mod 2 ^ 16) (mock_board 0x87 [] 1023))
     = replicate 4 1023"
    using poll_mock_level [where n = 4 and c = 0] by (simp add: mock_board_def)
  have h1: "\<forall>x\<in>set (fst (poll mock_analogRead 0 (2 ^ (2 * (unat (12 :: u8) - 10)))
              (mock_board 0x87 [] 1023))). unat x \<le> 1023"
    by (simp only: p1) simp
  have h2: "\<forall>x\<in>set (fst (poll mock_analogRead 0 (2 ^ unat (2 :: u8) mod 2 ^ 16)
              (mock_board 0x87 [] 1023))). unat x \<le> 1023"
    by (simp only: p2) simp
  have le: "(10 :: u8) \<le> 12" "(12 :: u8) \<le> 16" by simp_all
  note t = output_bounds [where OUTPUT_BITS = 12 and ?AVG_POW2.0 = 2 and analogRead = mock_analogRead
             and pin = 0 and h = "mock_board 0x87 [] 1023" and r = ATMega328PAnalogReader]
  have a: "case readHighRes 12 mock_analogRead 0 (ATMega328PAnalogReader, mock_board 0x87 [] 1023) of
      Inl e \<Rightarrow> False
    | Inr (v, r', h') \<Rightarrow> unat v < 2 ^ unat (12 :: u8) \<and> unat v \<le> 1023 * 2 ^ (unat (12 :: u8) - 10)"
    using t le h1 by blast
  have b: "unat (fst (readAveraged 2 mock_analogRead 0
             (ATMega328PAnalogReader, mock_board 0x87 [] 1023))) \<le> 1023"
    using t h2 by blast
  have c: "unat (1023 :: u16) \<le> 1023" by simp
  show ?thesis using le p1 p2 a b c by (intro conjI)
qed

text \<open>
  The number of samples and the accumulator. A read whose nominal sample count is
  \<open>2 ^ n\<close> with \<open>n \<le> 15\<close> makes exactly \<open>2 ^ n\<close> calls of
  \<^verbatim>\<open>analogRead\<close>: the hardware state after the read is the state after
  \<open>2 ^ n\<close> consecutive calls. That is \<^verbatim>\<open>readAveraged\<close> with
  \<^verbatim>\<open>AVG_POW2\<close> up to 15, \<^verbatim>\<open>readHighRes\<close> with any
  \<^verbatim>\<open>OUTPUT_BITS\<close> from 10 to 16, and \<^verbatim>\<open>readHighResAveraged\<close> with
  \<open>2 * (OUTPUT_BITS - 10) + AVG_POW2\<close> up to 15. And whatever the 16-bit sample count
  of the loop, if no sample exceeds 1023 the 32-bit accumulator holds the exact sum of
  the samples, which is below \<open>2 ^ 32\<close>: the addition never wraps (the partial sums
  are no larger than the final one).
\<close>

lemma sample_count_and_accumulator:
  "(AVG_POW2 \<le> 15 \<longrightarrow>
      snd (snd (readAveraged AVG_POW2 analogRead pin (r, h)))
        = snd (poll analogRead pin (2 ^ unat AVG_POW2) h)) \<and>
   (10 \<le> OUTPUT_BITS \<and> OUTPUT_BITS \<le> 16 \<longrightarrow>
      (case readHighRes OUTPUT_BITS analogRead pin (r, h) of
         Inl e \<Rightarrow> False
       | Inr (v, r', h') \<Rightarrow>
           h' = snd (poll analogRead pin (2 ^ (2 * (unat OUTPUT_BITS - 10))) h))) \<and>
   (10 \<le> OUTPUT_BITS \<and> OUTPUT_BITS \<le> 16 \<and>
    2 * (unat OUTPUT_BITS - 10) + unat AVG_POW2 \<le> 15 \<longrightarrow>
      (case readHighResAveraged OUTPUT_BITS AVG_POW2 analogRead pin (r, h) of
         Inl e \<Rightarrow> False
       | Inr (v, r', h') \<Rightarrow>
           h' = snd (poll analogRead pin
                       (2 ^ (2 * (unat OUTPUT_BITS - 10) + unat AVG_POW2)) h))) \<and>
   ((\<forall>x\<in>set (fst (poll analogRead pin (unat samples) h)). unat x \<le> 1023) \<longrightarrow>
      (case sum_loop analogRead pin samples 0 0 h of
         (acc, h') \<Rightarrow>
           unat acc = sum_list (map unat (fst (poll analogRead pin (unat samples) h))) \<and>
           sum_list (map unat (fst (poll analogRead pin (unat samples) h))) < 2 ^ 32 \<and>
           h' = snd (poll analogRead pin (unat samples) h)))"
proof (intro conjI impI)
  assume "AVG_POW2 \<le> 15"
  then have "unat AVG_POW2 \<le> 15" by (simp add: word_le_nat_alt)
  then show "snd (snd (readAveraged AVG_POW2 analogRead pin (r, h)))
        = snd (poll analogRead pin (2 ^ unat AVG_POW2) h)"
    by (simp only: readAveraged_hw pow2_small)
next
  assume "10 \<le> OUTPUT_BITS \<and> OUTPUT_BITS \<le> 16"
  then obtain v where "readHighRes OUTPUT_BITS analogRead pin (r, h)
     = Inr (v, r, snd (poll analogRead pin (2 ^ (2 * (unat OUTPUT_BITS - 10))) h))"
    using readHighRes_hw [of OUTPUT_BITS analogRead pin r h] by blast
  then show "case readHighRes OUTPUT_BITS analogRead pin (r, h) of
         Inl e \<Rightarrow> False
       | Inr (v, r', h') \<Rightarrow>
           h' = snd (poll analogRead pin (2 ^ (2 * (unat OUTPUT_BITS - 10))) h)"
    by simp
next
  assume a: "10 \<le> OUTPUT_BITS \<and> OUTPUT_BITS \<le> 16 \<and>
    2 * (unat OUTPUT_BITS - 10) + unat AVG_POW2 \<le> 15"
  then have t: "unat (2 * (OUTPUT_BITS - 10) + AVG_POW2)
                  = 2 * (unat OUTPUT_BITS - 10) + unat AVG_POW2"
    by (intro totalPow2_small) simp_all
  obtain v where "readHighResAveraged OUTPUT_BITS AVG_POW2 analogRead pin (r, h)
     = Inr (v, r, snd (poll analogRead pin
                         (2 ^ unat (2 * (OUTPUT_BITS - 10) + AVG_POW2) mod 2 ^ 16) h))"
    using a readHighResAveraged_hw [of OUTPUT_BITS AVG_POW2 analogRead pin r h] by blast
  then have "readHighResAveraged OUTPUT_BITS AVG_POW2 analogRead pin (r, h)
     = Inr (v, r, snd (poll analogRead pin
                         (2 ^ (2 * (unat OUTPUT_BITS - 10) + unat AVG_POW2)) h))"
    using a by (simp only: t pow2_small)
  then show "case readHighResAveraged OUTPUT_BITS AVG_POW2 analogRead pin (r, h) of
         Inl e \<Rightarrow> False
       | Inr (v, r', h') \<Rightarrow>
           h' = snd (poll analogRead pin
                       (2 ^ (2 * (unat OUTPUT_BITS - 10) + unat AVG_POW2)) h)"
    by simp
next
  assume r: "\<forall>x\<in>set (fst (poll analogRead pin (unat samples) h)). unat x \<le> 1023"
  show "case sum_loop analogRead pin samples 0 0 h of
         (acc, h') \<Rightarrow>
           unat acc = sum_list (map unat (fst (poll analogRead pin (unat samples) h))) \<and>
           sum_list (map unat (fst (poll analogRead pin (unat samples) h))) < 2 ^ 32 \<and>
           h' = snd (poll analogRead pin (unat samples) h)"
    using loop_no_overflow(2,3) [OF r] loop_no_overflow(1) [OF r]
    by (simp split: prod.splits)
qed

lemma sample_count_and_accumulator_example:
  "(2 :: u8) \<le> 15 \<and> (10 :: u8) \<le> 12 \<and> (12 :: u8) \<le> 16 \<and>
   2 * (unat (12 :: u8) - 10) + unat (2 :: u8) \<le> 15 \<and>
   fst (poll mock_analogRead 0 (unat (16 :: u16)) (mock_board 0x87 [] 500)) = replicate 16 500 \<and>
   unat (500 :: u16) \<le> 1023 \<and>
   conversions (snd (snd (readAveraged 2 mock_analogRead 0
      (ATMega328PAnalogReader, mock_board 0x87 [] 500)))) = 4 \<and>
   (case readHighRes 12 mock_analogRead 0 (ATMega328PAnalogReader, mock_board 0x87 [] 500) of
      Inl e \<Rightarrow> False | Inr (v, r', h') \<Rightarrow> conversions h' = 16) \<and>
   (case readHighResAveraged 12 2 mock_analogRead 0
           (ATMega328PAnalogReader, mock_board 0x87 [] 500) of
      Inl e \<Rightarrow> False | Inr (v, r', h') \<Rightarrow> conversions h' = 64) \<and>
   (case sum_loop mock_analogRead 0 16 0 0 (mock_board 0x87 [] 500) of
      (acc, h') \<Rightarrow> unat acc = 8000 \<and> conversions h' = 16)"
proof -
  let ?b = "mock_board 0x87 [] 500"
  have p: "poll mock_analogRead 0 n ?b
             = (replicate n 500, \<lparr>ADCSRA = 0x87, pending = [], level = 500, conversions = n\<rparr>)"
    for n
    using poll_mock_level [where n = n and c = 0 and pin = 0 and v = "0x87" and l = 500]
    by (simp add: mock_board_def)
  have le: "(2 :: u8) \<le> 15" "(10 :: u8) \<le> 12 \<and> (12 :: u8) \<le> 16"
    "(10 :: u8) \<le> 12 \<and> (12 :: u8) \<le> 16 \<and> 2 * (unat (12 :: u8) - 10) + unat (2 :: u8) \<le> 15"
    by simp_all
  have r: "\<forall>x\<in>set (fst (poll mock_analogRead 0 (unat (16 :: u16)) ?b)). unat x \<le> 1023"
    by (simp add: p)
  note t = sample_count_and_accumulator [where ?AVG_POW2.0 = 2 and OUTPUT_BITS = 12
             and analogRead = mock_analogRead and pin = 0 and h = ?b
             and r = ATMega328PAnalogReader and samples = 16]
  have a: "snd (snd (readAveraged 2 mock_analogRead 0 (ATMega328PAnalogReader, ?b)))
             = snd (poll mock_analogRead 0 (2 ^ unat (2 :: u8)) ?b)"
    by (rule t [THEN conjunct1, THEN mp, OF le(1)])
  have b: "case readHighRes 12 mock_analogRead 0 (ATMega328PAnalogReader, ?b) of
         Inl e \<Rightarrow> False
       | Inr (v, r', h') \<Rightarrow>
           h' = snd (poll mock_analogRead 0 (2 ^ (2 * (unat (12 :: u8) - 10))) ?b)"
    by (rule t [THEN conjunct2, THEN conjunct1, THEN mp, OF le(2)])
  have c: "case readHighResAveraged 12 2 mock_analogRead 0 (ATMega328PAnalogReader, ?b) of
         Inl e \<Rightarrow> False
       | Inr (v, r', h') \<Rightarrow>
           h' = snd (poll mock_analogRead 0
                       (2 ^ (2 * (unat (12 :: u8) - 10) + unat (2 :: u8))) ?b)"
    by (rule t [THEN conjunct2, THEN conjunct2, THEN conjunct1, THEN mp, OF le(3)])
  have d: "case sum_loop mock_analogRead 0 16 0 0 ?b of
         (acc, h') \<Rightarrow>
           unat acc = sum_list (map unat (fst (poll mock_analogRead 0 (unat (16 :: u16)) ?b))) \<and>
           sum_list (map unat (fst (poll mock_analogRead 0 (unat (16 :: u16)) ?b))) < 2 ^ 32 \<and>
           h' = snd (poll mock_analogRead 0 (unat (16 :: u16)) ?b)"
    by (rule t [THEN conjunct2, THEN conjunct2, THEN conjunct2, THEN mp, OF r])
  have a': "conversions (snd (snd (readAveraged 2 mock_analogRead 0
              (ATMega328PAnalogReader, ?b)))) = 4"
    by (simp only: a p) simp
  have b': "case readHighRes 12 mock_analogRead 0 (ATMega328PAnalogReader, ?b) of
      Inl e \<Rightarrow> False | Inr (v, r', h') \<Rightarrow> conversions h' = 16"
    using b by (simp only: p) (auto split: sum.splits prod.splits)
  have c': "case readHighResAveraged 12 2 mock_analogRead 0 (ATMega328PAnalogReader, ?b) of
      Inl e \<Rightarrow> False | Inr (v, r', h') \<Rightarrow> conversions h' = 64"
    using c by (simp only: p) (auto split: sum.splits prod.splits)
  have d': "case sum_loop mock_analogRead 0 16 0 0 ?b of
      (acc, h') \<Rightarrow> unat acc = 8000 \<and> conversions h' = 16"
    using d by (simp only: p) (auto simp: sum_list_replicate split: prod.splits)
  have p16: "fst (poll mock_analogRead 0 (unat (16 :: u16)) ?b) = replicate 16 500"
    by (simp add: p)
  have u: "unat (500 :: u16) \<le> 1023" by simp
  show ?thesis using le(1) le(3) p16 u a' b' c' d' by (intro conjI) simp_all
qed

text \<open>
  C4. Every configuration that builds, \<^verbatim>\<open>OUTPUT_BITS\<close> from 10 to 16 with
  any \<^verbatim>\<open>AVG_POW2\<close>, is to make all \<open>2 ^ n\<close> calls of its nominal sample
  count, without overflow of the accumulator. The accumulator never overflows, and the
  calls are all made while \<open>n \<le> 15\<close>. They are not at
  \<^verbatim>\<open>readHighResAveraged<16, 4>\<close>, which the \<^verbatim>\<open>static_assert\<close>
  admits and whose nominal count is \<open>2 ^ 16\<close>: the 16-bit \<^verbatim>\<open>samples\<close> is
  0, and on a board whose every sample is 500 the read makes no conversion and returns
  0. Its two halves do what they say on the same board:
  \<^verbatim>\<open>readHighRes<16>\<close> makes 4096 conversions and returns 32000, and
  \<^verbatim>\<open>readAveraged<4>\<close> makes 16 and returns 500.
\<close>

theorem readHighResAveraged_16_4_takes_no_sample:
  "(10 :: u8) \<le> 16 \<and> (16 :: u8) \<le> 16 \<and>
   readHighResAveraged 16 4 mock_analogRead 0 (ATMega328PAnalogReader, mock_board 0x87 [] 500)
     = Inr (0, ATMega328PAnalogReader, mock_board 0x87 [] 500) \<and>
   conversions (mock_board 0x87 [] 500) = 0 \<and>
   readHighRes 16 mock_analogRead 0 (ATMega328PAnalogReader, mock_board 0x87 [] 500)
     = Inr (32000, ATMega328PAnalogReader,
            \<lparr>ADCSRA = 0x87, pending = [], level = 500, conversions = 4096\<rparr>) \<and>
   readAveraged 4 mock_analogRead 0 (ATMega328PAnalogReader, mock_board 0x87 [] 500)
     = (500, ATMega328PAnalogReader,
        \<lparr>ADCSRA = 0x87, pending = [], level = 500, conversions = 16\<rparr>)"
proof -
  let ?b = "mock_board 0x87 [] 500"
  have p: "poll mock_analogRead 0 n ?b
             = (replicate n 500, \<lparr>ADCSRA = 0x87, pending = [], level = 500, conversions = n\<rparr>)"
    for n
    using poll_mock_level [where n = n and c = 0 and pin = 0 and v = "0x87" and l = 500]
    by (simp add: mock_board_def)
  have le: "(10 :: u8) \<le> 16" "(16 :: u8) \<le> 16" by simp_all
  have "unat (2 * ((16 :: u8) - 10) + 4) = 16" by simp
  then have a: "readHighResAveraged 16 4 mock_analogRead 0 (ATMega328PAnalogReader, ?b)
     = Inr (0, ATMega328PAnalogReader, ?b)"
    by (simp only: readHighResAveraged_poll [OF le]) (simp add: mock_board_def)
  have b: "conversions ?b = 0" by (simp add: mock_board_def)
  have "unat ((16 :: u8) - 10) = 6" by simp
  then have c: "readHighRes 16 mock_analogRead 0 (ATMega328PAnalogReader, ?b)
     = Inr (32000, ATMega328PAnalogReader,
            \<lparr>ADCSRA = 0x87, pending = [], level = 500, conversions = 4096\<rparr>)"
    by (simp only: readHighRes_poll [OF le] p) (simp add: sum_list_replicate)
  have d: "readAveraged 4 mock_analogRead 0 (ATMega328PAnalogReader, ?b)
     = (500, ATMega328PAnalogReader,
        \<lparr>ADCSRA = 0x87, pending = [], level = 500, conversions = 16\<rparr>)"
    by (simp only: readAveraged_poll p) (simp add: sum_list_replicate)
  show ?thesis using le a b c d by (intro conjI)
qed

text \<open>
  C9. The four reads return the object as they found it (\<^verbatim>\<open>_initialized\<close>,
  \<^verbatim>\<open>_backupADCSRA\<close> and \<^verbatim>\<open>_prescalerBits\<close> unchanged), and the hardware
  in the state that consecutive calls of \<^verbatim>\<open>analogRead\<close> alone lead to; so
  when \<^verbatim>\<open>analogRead\<close> leaves \<^verbatim>\<open>ADCSRA\<close> as it finds it, which is
  the contract the specification gives it, the register after a read is the register
  before it. An oversampling read returns no value at all only when
  \<^verbatim>\<open>OUTPUT_BITS\<close> is outside 10..16, where it does not build.
\<close>

theorem reads_frame:
  "(case read analogRead pin (r, h) of
      (v, r', h') \<Rightarrow>
        r' = r \<and> h' = snd (poll analogRead pin 1 h) \<and>
        ((\<forall>p s. ADCSRA (snd (analogRead p s)) = ADCSRA s) \<longrightarrow> ADCSRA h' = ADCSRA h)) \<and>
   (case readAveraged AVG_POW2 analogRead pin (r, h) of
      (v, r', h') \<Rightarrow>
        r' = r \<and> h' = snd (poll analogRead pin (2 ^ unat AVG_POW2 mod 2 ^ 16) h) \<and>
        ((\<forall>p s. ADCSRA (snd (analogRead p s)) = ADCSRA s) \<longrightarrow> ADCSRA h' = ADCSRA h)) \<and>
   (case readHighRes OUTPUT_BITS analogRead pin (r, h) of
      Inl e \<Rightarrow> \<not> (10 \<le> OUTPUT_BITS \<and> OUTPUT_BITS \<le> 16)
    | Inr (v, r', h') \<Rightarrow>
        r' = r \<and> h' = snd (poll analogRead pin (2 ^ (2 * (unat OUTPUT_BITS - 10))) h) \<and>
        ((\<forall>p s. ADCSRA (snd (analogRead p s)) = ADCSRA s) \<longrightarrow> ADCSRA h' = ADCSRA h)) \<and>
   (case readHighResAveraged OUTPUT_BITS AVG_POW2 analogRead pin (r, h) of
      Inl e \<Rightarrow> \<not> (10 \<le> OUTPUT_BITS \<and> OUTPUT_BITS \<le> 16)
    | Inr (v, r', h') \<Rightarrow>
        r' = r \<and>
        h' = snd (poll analogRead pin
                    (2 ^ unat (2 * (OUTPUT_BITS - 10) + AVG_POW2) mod 2 ^ 16) h) \<and>
        ((\<forall>p s. ADCSRA (snd (analogRead p s)) = ADCSRA s) \<longrightarrow> ADCSRA h' = ADCSRA h))"
proof (intro conjI)
  have P: "ADCSRA (snd (poll analogRead pin n h)) = ADCSRA h"
    if "\<forall>p s. ADCSRA (snd (analogRead p s)) = ADCSRA s" for n
    using that by (rule poll_preserves_ADCSRA)
  show "case read analogRead pin (r, h) of
      (v, r', h') \<Rightarrow>
        r' = r \<and> h' = snd (poll analogRead pin 1 h) \<and>
        ((\<forall>p s. ADCSRA (snd (analogRead p s)) = ADCSRA s) \<longrightarrow> ADCSRA h' = ADCSRA h)"
    using P [of 1] by (simp only: read_poll) (auto split: prod.splits)
  show "case readAveraged AVG_POW2 analogRead pin (r, h) of
      (v, r', h') \<Rightarrow>
        r' = r \<and> h' = snd (poll analogRead pin (2 ^ unat AVG_POW2 mod 2 ^ 16) h) \<and>
        ((\<forall>p s. ADCSRA (snd (analogRead p s)) = ADCSRA s) \<longrightarrow> ADCSRA h' = ADCSRA h)"
    using P [of "2 ^ unat AVG_POW2 mod 2 ^ 16"]
    by (simp only: readAveraged_poll) (auto split: prod.splits)
  show "case readHighRes OUTPUT_BITS analogRead pin (r, h) of
      Inl e \<Rightarrow> \<not> (10 \<le> OUTPUT_BITS \<and> OUTPUT_BITS \<le> 16)
    | Inr (v, r', h') \<Rightarrow>
        r' = r \<and> h' = snd (poll analogRead pin (2 ^ (2 * (unat OUTPUT_BITS - 10))) h) \<and>
        ((\<forall>p s. ADCSRA (snd (analogRead p s)) = ADCSRA s) \<longrightarrow> ADCSRA h' = ADCSRA h)"
  proof (cases "10 \<le> OUTPUT_BITS \<and> OUTPUT_BITS \<le> 16")
    case True
    then obtain v where "readHighRes OUTPUT_BITS analogRead pin (r, h)
        = Inr (v, r, snd (poll analogRead pin (2 ^ (2 * (unat OUTPUT_BITS - 10))) h))"
      using readHighRes_hw [of OUTPUT_BITS analogRead pin r h] by blast
    then show ?thesis using P [of "2 ^ (2 * (unat OUTPUT_BITS - 10))"] by simp
  next
    case False
    then have "readHighRes OUTPUT_BITS analogRead pin (r, h)
                 = Inl OUTPUT_BITS_must_be_between_10_and_16"
      by (simp only: readHighRes_def simp_thms if_True)
    then show ?thesis using False by simp
  qed
  show "case readHighResAveraged OUTPUT_BITS AVG_POW2 analogRead pin (r, h) of
      Inl e \<Rightarrow> \<not> (10 \<le> OUTPUT_BITS \<and> OUTPUT_BITS \<le> 16)
    | Inr (v, r', h') \<Rightarrow>
        r' = r \<and>
        h' = snd (poll analogRead pin
                    (2 ^ unat (2 * (OUTPUT_BITS - 10) + AVG_POW2) mod 2 ^ 16) h) \<and>
        ((\<forall>p s. ADCSRA (snd (analogRead p s)) = ADCSRA s) \<longrightarrow> ADCSRA h' = ADCSRA h)"
  proof (cases "10 \<le> OUTPUT_BITS \<and> OUTPUT_BITS \<le> 16")
    case True
    then obtain v where "readHighResAveraged OUTPUT_BITS AVG_POW2 analogRead pin (r, h)
        = Inr (v, r, snd (poll analogRead pin
                            (2 ^ unat (2 * (OUTPUT_BITS - 10) + AVG_POW2) mod 2 ^ 16) h))"
      using readHighResAveraged_hw [of OUTPUT_BITS AVG_POW2 analogRead pin r h] by blast
    then show ?thesis
      using P [of "2 ^ unat (2 * (OUTPUT_BITS - 10) + AVG_POW2) mod 2 ^ 16"]
      by (simp del: power_numeral)
  next
    case False
    then have "readHighResAveraged OUTPUT_BITS AVG_POW2 analogRead pin (r, h)
                 = Inl OUTPUT_BITS_must_be_between_10_and_16"
      by (simp only: readHighResAveraged_def simp_thms if_True)
    then show ?thesis using False by simp
  qed
qed

theorem reads_frame_witness:
  "(case read mock_analogRead 0
           (\<lparr>m_prescalerBits = 4, m_backupADCSRA = 0xA7, m_initialized = True\<rparr>,
            mock_board 0xA4 [100, 102, 98, 100] 500) of
      (v, r', h') \<Rightarrow>
        r' = \<lparr>m_prescalerBits = 4, m_backupADCSRA = 0xA7, m_initialized = True\<rparr> \<and>
        ADCSRA h' = 0xA4 \<and> conversions h' = 1) \<and>
   (case readAveraged 2 mock_analogRead 0
           (\<lparr>m_prescalerBits = 4, m_backupADCSRA = 0xA7, m_initialized = True\<rparr>,
            mock_board 0xA4 [100, 102, 98, 100] 500) of
      (v, r', h') \<Rightarrow>
        r' = \<lparr>m_prescalerBits = 4, m_backupADCSRA = 0xA7, m_initialized = True\<rparr> \<and>
        ADCSRA h' = 0xA4 \<and> conversions h' = 4) \<and>
   (case readHighRes 11 mock_analogRead 0
           (\<lparr>m_prescalerBits = 4, m_backupADCSRA = 0xA7, m_initialized = True\<rparr>,
            mock_board 0xA4 [100, 102, 98, 100] 500) of
      Inl e \<Rightarrow> False
    | Inr (v, r', h') \<Rightarrow>
        r' = \<lparr>m_prescalerBits = 4, m_backupADCSRA = 0xA7, m_initialized = True\<rparr> \<and>
        ADCSRA h' = 0xA4 \<and> conversions h' = 4) \<and>
   (case readHighResAveraged 11 1 mock_analogRead 0
           (\<lparr>m_prescalerBits = 4, m_backupADCSRA = 0xA7, m_initialized = True\<rparr>,
            mock_board 0xA4 [100, 102, 98, 100] 500) of
      Inl e \<Rightarrow> False
    | Inr (v, r', h') \<Rightarrow>
        r' = \<lparr>m_prescalerBits = 4, m_backupADCSRA = 0xA7, m_initialized = True\<rparr> \<and>
        ADCSRA h' = 0xA4 \<and> conversions h' = 8)"
proof -
  let ?r = "\<lparr>m_prescalerBits = 4, m_backupADCSRA = 0xA7, m_initialized = True\<rparr>"
  let ?b = "mock_board 0xA4 [100, 102, 98, 100] 500"
  note m = mock_preserves_ADCSRA
  note t = reads_frame [where analogRead = mock_analogRead and pin = 0 and r = ?r and h = ?b
             and ?AVG_POW2.0 = 2 and OUTPUT_BITS = 11]
  note u = reads_frame [where analogRead = mock_analogRead and pin = 0 and r = ?r and h = ?b
             and ?AVG_POW2.0 = 1 and OUTPUT_BITS = 11]
  have c: "ADCSRA ?b = 0xA4" by (simp add: mock_board_def)
  have p1: "conversions (snd (poll mock_analogRead 0 1 ?b)) = 1"
    by (simp only: conversions_poll_mock) (simp add: mock_board_def)
  have p4: "conversions (snd (poll mock_analogRead 0 (2 ^ unat (2 :: u8) mod 2 ^ 16) ?b)) = 4"
    by (simp only: conversions_poll_mock) (simp add: mock_board_def)
  have p4': "conversions (snd (poll mock_analogRead 0 (2 ^ (2 * (unat (11 :: u8) - 10))) ?b)) = 4"
    by (simp only: conversions_poll_mock) (simp add: mock_board_def)
  have p8: "conversions (snd (poll mock_analogRead 0
              (2 ^ unat (2 * ((11 :: u8) - 10) + 1) mod 2 ^ 16) ?b)) = 8"
    by (simp only: conversions_poll_mock) (simp add: mock_board_def)
  have le: "(10 :: u8) \<le> 11" "(11 :: u8) \<le> 16" by simp_all
  obtain v1 h1 where b1: "readHighRes 11 mock_analogRead 0 (?r, ?b) = Inr (v1, ?r, h1)"
    using readHighRes_hw [OF le, of mock_analogRead 0 ?r ?b] by blast
  obtain v2 h2 where b2: "readHighResAveraged 11 1 mock_analogRead 0 (?r, ?b) = Inr (v2, ?r, h2)"
    using readHighResAveraged_hw [OF le, of 1 mock_analogRead 0 ?r ?b] by blast
  show ?thesis
  proof (intro conjI)
    show "case read mock_analogRead 0 (?r, ?b) of
      (v, r', h') \<Rightarrow> r' = ?r \<and> ADCSRA h' = 0xA4 \<and> conversions h' = 1"
      using t [THEN conjunct1] p1 c m by (auto split: prod.splits)
    show "case readAveraged 2 mock_analogRead 0 (?r, ?b) of
      (v, r', h') \<Rightarrow> r' = ?r \<and> ADCSRA h' = 0xA4 \<and> conversions h' = 4"
      using t [THEN conjunct2, THEN conjunct1] p4 c m by (auto split: prod.splits)
    show "case readHighRes 11 mock_analogRead 0 (?r, ?b) of
      Inl e \<Rightarrow> False
    | Inr (v, r', h') \<Rightarrow> r' = ?r \<and> ADCSRA h' = 0xA4 \<and> conversions h' = 4"
      using t [THEN conjunct2, THEN conjunct2, THEN conjunct1] p4' c m
      by (auto simp: b1)
    show "case readHighResAveraged 11 1 mock_analogRead 0 (?r, ?b) of
      Inl e \<Rightarrow> False
    | Inr (v, r', h') \<Rightarrow> r' = ?r \<and> ADCSRA h' = 0xA4 \<and> conversions h' = 8"
      using u [THEN conjunct2, THEN conjunct2, THEN conjunct2] p8 c m
      by (auto simp: b2 simp del: power_numeral)
  qed
qed

text \<open>
  C3, as amended. For \<^verbatim>\<open>OUTPUT_BITS\<close> from 10 to 16 and
  \<open>2 * extraBits + AVG_POW2 \<le> 15\<close>, \<^verbatim>\<open>readHighResAveraged\<close> builds, takes
  \<open>2 ^ (2 * extraBits + AVG_POW2)\<close> consecutive samples \<open>xs\<close>, leaves the object
  as it was, and returns the 32-bit sum of all of them shifted right by
  \<open>2 * extraBits + AVG_POW2\<close>, converted to 16 bits and shifted left by
  \<open>extraBits\<close>. When no sample exceeds 1023 this is the sum divided by
  \<open>2 ^ (2 * extraBits + AVG_POW2)\<close>, times \<open>2 ^ extraBits\<close>; it differs from the
  two-stage result of the specification by at most \<open>2 ^ extraBits\<close> (one step of
  the result's grid), and it is equal to it when \<^verbatim>\<open>AVG_POW2 = 0\<close>, when
  \<^verbatim>\<open>OUTPUT_BITS = 10\<close>, and when all samples are equal.
\<close>

theorem readHighResAveraged_single_pass:
  assumes "10 \<le> OUTPUT_BITS" "OUTPUT_BITS \<le> 16"
    and "2 * (unat OUTPUT_BITS - 10) + unat AVG_POW2 \<le> 15"
  shows "let extraBits = unat OUTPUT_BITS - 10; a = unat AVG_POW2 in
     case poll analogRead pin (2 ^ (2 * extraBits + a)) h of
       (xs, h') \<Rightarrow>
         (case readHighResAveraged OUTPUT_BITS AVG_POW2 analogRead pin (r, h) of
            Inl err \<Rightarrow> False
          | Inr (v, r', h'') \<Rightarrow>
              r' = r \<and> h'' = h' \<and>
              v = push_bit extraBits
                    (ucast (drop_bit (2 * extraBits + a)
                       (sum_list (map scast xs) :: u32)) :: u16) \<and>
              ((\<forall>x\<in>set xs. unat x \<le> 1023) \<longrightarrow>
                 unat v = (sum_list (map unat xs) div 2 ^ (2 * extraBits + a)) * 2 ^ extraBits \<and>
                 unat v \<le> unat (spec_decimate_then_average extraBits a xs) + 2 ^ extraBits \<and>
                 unat (spec_decimate_then_average extraBits a xs) < unat v + 2 ^ extraBits \<and>
                 (a = 0 \<or> extraBits = 0 \<or> (\<exists>S. \<forall>x\<in>set xs. x = S) \<longrightarrow>
                    v = spec_decimate_then_average extraBits a xs)))"
proof -
  define e where "e = unat OUTPUT_BITS - 10"
  define a where "a = unat AVG_POW2"
  note er = extraBits_range [OF assms(1,2)]
  have e: "unat (OUTPUT_BITS - 10) = e" "e \<le> 6" using er by (simp_all add: e_def)
  have k: "2 * e + a \<le> 15" using assms(3) by (simp only: e_def a_def)
  have t: "unat (2 * (OUTPUT_BITS - 10) + AVG_POW2) = 2 * e + a"
    using totalPow2_small [OF assms] by (simp only: e_def a_def)
  obtain xs h' where p: "poll analogRead pin (2 ^ (2 * e + a)) h = (xs, h')"
    by (cases "poll analogRead pin (2 ^ (2 * e + a)) h")
  define v :: u16 where
    "v = push_bit e (ucast (drop_bit (2 * e + a) (sum_list (map scast xs) :: u32)) :: u16)"
  have rd: "readHighResAveraged OUTPUT_BITS AVG_POW2 analogRead pin (r, h) = Inr (v, r, h')"
    by (simp only: readHighResAveraged_poll [OF assms(1,2)] t pow2_small [OF k] e(1) p
          prod.case v_def)
  have len: "length xs = 2 ^ (2 * e + a)" using p by (rule length_poll)
  have inr: "unat v = (sum_list (map unat xs) div 2 ^ (2 * e + a)) * 2 ^ e \<and>
             unat v \<le> unat (spec_decimate_then_average e a xs) + 2 ^ e \<and>
             unat (spec_decimate_then_average e a xs) < unat v + 2 ^ e \<and>
             (a = 0 \<or> e = 0 \<or> (\<exists>S. \<forall>x\<in>set xs. x = S) \<longrightarrow>
                v = spec_decimate_then_average e a xs)"
    if r: "\<forall>x\<in>set xs. unat x \<le> 1023"
  proof -
    define G :: nat where "G = 2 ^ (2 * e)"
    define A :: nat where "A = 2 ^ a"
    define E :: nat where "E = 2 ^ e"
    define cs where "cs = chunks A G xs"
    define ss where "ss = map (\<lambda>c. sum_list (map unat c)) cs"
    have G0: "0 < G" and A0: "0 < A" and E0: "0 < E" by (simp_all add: G_def A_def E_def)
    have GA: "2 ^ (2 * e + a) = G * A" by (simp add: G_def A_def power_add)
    have AG: "A * G = length xs" by (simp add: len GA)
    have lss: "length ss = A" by (simp add: ss_def cs_def length_chunks)
    have S: "sum_list ss = sum_list (map unat xs)"
      unfolding ss_def cs_def by (simp add: chunks_sums AG)
    have k16: "2 * e + a \<le> 16" using k by simp
    have P: "unat v = (sum_list ss div (G * A)) * E"
      unfolding v_def S GA [symmetric] E_def using e(2) k16 r len by (rule decimate_inrange)
    have T: "unat (spec_decimate_then_average e a xs)
               = (E * sum_list (map (\<lambda>s. s div G) ss)) div A"
      using two_stage_numeric [OF e(2) k r len]
      by (simp only: E_def G_def A_def ss_def cs_def)
    have c1: "unat v = (sum_list (map unat xs) div 2 ^ (2 * e + a)) * 2 ^ e"
      using P by (simp only: S GA E_def)
    have c2: "unat v \<le> unat (spec_decimate_then_average e a xs) + 2 ^ e"
      using two_stage_close(1) [OF G0 A0 E0 lss] by (simp only: P T E_def)
    have c3: "unat (spec_decimate_then_average e a xs) < unat v + 2 ^ e"
      using two_stage_close(2) [OF G0 A0 E0 lss] by (simp only: P T E_def)
    have c4: "v = spec_decimate_then_average e a xs"
      if d: "a = 0 \<or> e = 0 \<or> (\<exists>S. \<forall>x\<in>set xs. x = S)"
    proof -
      from d consider "a = 0" | "e = 0" | S where "\<forall>x\<in>set xs. x = S" by blast
      then have "\<exists>c. A = 1 \<or> (G = 1 \<and> E = 1) \<or> (\<forall>s\<in>set ss. s = G * c)"
      proof cases
        case 1
        then show ?thesis by (simp add: A_def)
      next
        case 2
        then show ?thesis by (simp add: G_def E_def)
      next
        case 3
        have "s = G * unat S" if "s \<in> set ss" for s
        proof -
          from that obtain c where c: "c \<in> set cs" "s = sum_list (map unat c)"
            by (auto simp: ss_def)
          have m: "length c = G \<and> set c \<subseteq> set xs"
            using c(1) unfolding cs_def by (intro chunks_members) (simp_all add: AG)
          then have "\<forall>x\<in>set c. x = S" using 3 by blast
          then have "\<forall>x\<in>set c. unat x = unat S" by simp
          then have "map unat c = replicate (length c) (unat S)"
            by (simp add: map_replicate_const [symmetric] cong: map_cong)
          then show ?thesis using m c(2) by (simp add: sum_list_replicate)
        qed
        then show ?thesis by blast
      qed
      then obtain c where "A = 1 \<or> (G = 1 \<and> E = 1) \<or> (\<forall>s\<in>set ss. s = G * c)" ..
      then have "(E * sum_list (map (\<lambda>s. s div G) ss)) div A = (sum_list ss div (G * A)) * E"
        using G0 A0 lss by (intro two_stage_equal)
      then have "unat v = unat (spec_decimate_then_average e a xs)" by (simp only: P T)
      then show ?thesis by (simp only: word_unat_eq_iff)
    qed
    show ?thesis using c1 c2 c3 c4 by blast
  qed
  show ?thesis
    using inr
    by (simp only: Let_def e_def [symmetric] a_def [symmetric] p rd prod.case sum.case
          v_def [symmetric]) blast
qed

theorem readHighResAveraged_single_pass_witness:
  "(10 :: u8) \<le> 11 \<and> (11 :: u8) \<le> 16 \<and> 2 * (unat (11 :: u8) - 10) + unat (1 :: u8) \<le> 15 \<and>
   unat (500 :: u16) \<le> 1023 \<and>
   readHighResAveraged 11 1 mock_analogRead 0 (ATMega328PAnalogReader, mock_board 0x87 [] 500)
     = Inr (1000, ATMega328PAnalogReader,
            \<lparr>ADCSRA = 0x87, pending = [], level = 500, conversions = 8\<rparr>) \<and>
   spec_decimate_then_average 1 1 (replicate 8 500) = 1000"
proof -
  let ?b = "mock_board 0x87 [] 500"
  let ?b' = "\<lparr>ADCSRA = 0x87, pending = [], level = 500, conversions = 8\<rparr>"
  have p: "poll mock_analogRead 0 (2 ^ (2 * (unat (11 :: u8) - 10) + unat (1 :: u8))) ?b
             = (replicate 8 500, ?b')"
    using poll_mock_level [where n = 8 and c = 0 and pin = 0 and v = "0x87" and l = 500]
    by (simp add: mock_board_def)
  have le: "(10 :: u8) \<le> 11" "(11 :: u8) \<le> 16"
    "2 * (unat (11 :: u8) - 10) + unat (1 :: u8) \<le> 15" by simp_all
  have e: "unat (11 :: u8) - 10 = 1" "unat (1 :: u8) = 1" by simp_all
  have r: "\<forall>x\<in>set (replicate 8 (500 :: u16)). unat x \<le> 1023" by simp
  have cst: "unat (1 :: u8) = 0 \<or> unat (11 :: u8) - 10 = 0 \<or>
             (\<exists>S. \<forall>x\<in>set (replicate 8 (500 :: u16)). x = S)" by simp
  obtain res where rd:
    "readHighResAveraged 11 1 mock_analogRead 0 (ATMega328PAnalogReader, ?b) = res" by simp
  have "case res of Inl err \<Rightarrow> False
        | Inr (v, r', h'') \<Rightarrow> r' = ATMega328PAnalogReader \<and> h'' = ?b' \<and>
            unat v = (sum_list (map unat (replicate 8 (500 :: u16)))
                        div 2 ^ (2 * (unat (11 :: u8) - 10) + unat (1 :: u8)))
                       * 2 ^ (unat (11 :: u8) - 10) \<and>
            v = spec_decimate_then_average (unat (11 :: u8) - 10) (unat (1 :: u8))
                  (replicate 8 500)"
    using readHighResAveraged_single_pass [OF le, where analogRead = mock_analogRead
            and pin = 0 and h = ?b and r = ATMega328PAnalogReader] r cst
    by (simp only: Let_def p rd prod.case) (auto split: sum.splits)
  then have "res = Inr (1000, ATMega328PAnalogReader, ?b') \<and>
             spec_decimate_then_average 1 1 (replicate 8 500) = 1000"
    by (auto simp: e sum_list_replicate word_unat_eq_iff split: sum.splits)
  then show ?thesis using le by (simp add: rd)
qed

text \<open>
  The claim as stated, equality for every sample sequence and every
  \<^verbatim>\<open>AVG_POW2\<close>, fails twice. With \<^verbatim>\<open>readHighResAveraged<11, 1>\<close>
  and the samples 4, 0, 0, 0, 0, 0, 0, 0 the single pass returns
  \<open>(4 >> 3) << 1 = 0\<close>, while \<^verbatim>\<open>readHighRes<11>\<close> returns 2 on the first
  four samples and 0 on the last four, whose average is 1: each stage rounds down on
  its own. With \<^verbatim>\<open>readHighResAveraged<16, 4>\<close> on a board that always reads
  500, the single pass takes no sample and returns 0, while every
  \<^verbatim>\<open>readHighRes<16>\<close> returns 32000.
\<close>

theorem readHighResAveraged_two_stage_counterexample:
  "(10 :: u8) \<le> 11 \<and> (11 :: u8) \<le> 16 \<and>
   readHighResAveraged 11 1 mock_analogRead 0
       (ATMega328PAnalogReader, mock_board 0x87 [4, 0, 0, 0, 0, 0, 0, 0] 0)
     = Inr (0, ATMega328PAnalogReader,
            \<lparr>ADCSRA = 0x87, pending = [], level = 0, conversions = 8\<rparr>) \<and>
   readHighRes 11 mock_analogRead 0
       (ATMega328PAnalogReader, mock_board 0x87 [4, 0, 0, 0, 0, 0, 0, 0] 0)
     = Inr (2, ATMega328PAnalogReader,
            \<lparr>ADCSRA = 0x87, pending = [0, 0, 0, 0], level = 0, conversions = 4\<rparr>) \<and>
   readHighRes 11 mock_analogRead 0
       (ATMega328PAnalogReader,
        \<lparr>ADCSRA = 0x87, pending = [0, 0, 0, 0], level = 0, conversions = 4\<rparr>)
     = Inr (0, ATMega328PAnalogReader,
            \<lparr>ADCSRA = 0x87, pending = [], level = 0, conversions = 8\<rparr>) \<and>
   (ucast (drop_bit 1 (ucast (2 :: u16) + ucast (0 :: u16) :: u32)) :: u16) = 1 \<and>
   spec_decimate_then_average (unat ((11 :: u8) - 10)) (unat (1 :: u8))
       [4, 0, 0, 0, 0, 0, 0, 0] = 1 \<and>
   (0 :: u16) \<noteq> 1 \<and>
   (10 :: u8) \<le> 16 \<and> (16 :: u8) \<le> 16 \<and>
   readHighResAveraged 16 4 mock_analogRead 0 (ATMega328PAnalogReader, mock_board 0x87 [] 500)
     = Inr (0, ATMega328PAnalogReader, mock_board 0x87 [] 500) \<and>
   readHighRes 16 mock_analogRead 0 (ATMega328PAnalogReader, mock_board 0x87 [] 500)
     = Inr (32000, ATMega328PAnalogReader,
            \<lparr>ADCSRA = 0x87, pending = [], level = 500, conversions = 4096\<rparr>) \<and>
   (0 :: u16) \<noteq> 32000"
proof -
  have a: "(10 :: u8) \<le> 11 \<and> (11 :: u8) \<le> 16 \<and>
   readHighResAveraged 11 1 mock_analogRead 0
       (ATMega328PAnalogReader, mock_board 0x87 [4, 0, 0, 0, 0, 0, 0, 0] 0)
     = Inr (0, ATMega328PAnalogReader,
            \<lparr>ADCSRA = 0x87, pending = [], level = 0, conversions = 8\<rparr>) \<and>
   readHighRes 11 mock_analogRead 0
       (ATMega328PAnalogReader, mock_board 0x87 [4, 0, 0, 0, 0, 0, 0, 0] 0)
     = Inr (2, ATMega328PAnalogReader,
            \<lparr>ADCSRA = 0x87, pending = [0, 0, 0, 0], level = 0, conversions = 4\<rparr>) \<and>
   readHighRes 11 mock_analogRead 0
       (ATMega328PAnalogReader,
        \<lparr>ADCSRA = 0x87, pending = [0, 0, 0, 0], level = 0, conversions = 4\<rparr>)
     = Inr (0, ATMega328PAnalogReader,
            \<lparr>ADCSRA = 0x87, pending = [], level = 0, conversions = 8\<rparr>) \<and>
   (ucast (drop_bit 1 (ucast (2 :: u16) + ucast (0 :: u16) :: u32)) :: u16) = 1 \<and>
   spec_decimate_then_average (unat ((11 :: u8) - 10)) (unat (1 :: u8))
       [4, 0, 0, 0, 0, 0, 0, 0] = 1 \<and>
   (0 :: u16) \<noteq> 1"
    by code_simp
  let ?b = "mock_board 0x87 [] 500"
  have p: "poll mock_analogRead 0 n ?b
             = (replicate n 500, \<lparr>ADCSRA = 0x87, pending = [], level = 500, conversions = n\<rparr>)"
    for n
    using poll_mock_level [where n = n and c = 0 and pin = 0 and v = "0x87" and l = 500]
    by (simp add: mock_board_def)
  have le: "(10 :: u8) \<le> 16" "(16 :: u8) \<le> 16" by simp_all
  have "unat (2 * ((16 :: u8) - 10) + 4) = 16" by simp
  then have b: "readHighResAveraged 16 4 mock_analogRead 0 (ATMega328PAnalogReader, ?b)
     = Inr (0, ATMega328PAnalogReader, ?b)"
    by (simp only: readHighResAveraged_poll [OF le]) (simp add: mock_board_def)
  have "unat ((16 :: u8) - 10) = 6" by simp
  then have c: "readHighRes 16 mock_analogRead 0 (ATMega328PAnalogReader, ?b)
     = Inr (32000, ATMega328PAnalogReader,
            \<lparr>ADCSRA = 0x87, pending = [], level = 500, conversions = 4096\<rparr>)"
    by (simp only: readHighRes_poll [OF le] p) (simp add: sum_list_replicate)
  show ?thesis using a b c le by simp
qed

end
